theory Spec2Isabelle
  imports Main
begin

chapter \<open>The model\<close>

section \<open>Python text\<close>

text \<open>
  A Python \<^verbatim>\<open>str\<close> is a sequence of Unicode code points, so it is modelled as a list of
  natural numbers (a code point is below \<open>0x110000\<close>). \<open>py\<close> turns an ASCII literal of
  the source into such a list. The double quote is code point 34, the backslash 92, the
  line feed 10.
\<close>

type_synonym pystr = "nat list"

definition py :: "string \<Rightarrow> pystr" where
  "py s = map of_char s"

text \<open>\<^verbatim>\<open>str.isspace\<close> on one code point (CPython's \<^verbatim>\<open>_PyUnicode_IsWhitespace\<close>);
  \<^verbatim>\<open>str.strip\<close>, \<^verbatim>\<open>str.lstrip\<close> and the regular expression class \<^verbatim>\<open>\s\<close> on a
  \<^verbatim>\<open>str\<close> pattern all use it.\<close>

definition isspace :: "nat \<Rightarrow> bool" where
  "isspace c \<longleftrightarrow>
     (9 \<le> c \<and> c \<le> 13) \<or> (28 \<le> c \<and> c \<le> 32) \<or> c = 133 \<or> c = 160 \<or> c = 5760 \<or>
     (8192 \<le> c \<and> c \<le> 8202) \<or> c = 8232 \<or> c = 8233 \<or> c = 8239 \<or> c = 8287 \<or> c = 12288"

definition lstrip :: "pystr \<Rightarrow> pystr" where
  "lstrip s = dropWhile isspace s"

definition rstrip :: "pystr \<Rightarrow> pystr" where
  "rstrip s = rev (dropWhile isspace (rev s))"

definition strip :: "pystr \<Rightarrow> pystr" where
  "strip s = rstrip (lstrip s)"

text \<open>\<^verbatim>\<open>str.startswith\<close>, and the rest of the text after a prefix.\<close>

fun startswith :: "pystr \<Rightarrow> pystr \<Rightarrow> bool" where
  "startswith s [] = True"
| "startswith [] (p # ps) = False"
| "startswith (c # cs) (p # ps) = (c = p \<and> startswith cs ps)"

text \<open>The line boundaries of \<^verbatim>\<open>str.splitlines\<close> (CPython's \<^verbatim>\<open>_PyUnicode_IsLinebreak\<close>).\<close>

definition islinebreak :: "nat \<Rightarrow> bool" where
  "islinebreak c \<longleftrightarrow>
     (10 \<le> c \<and> c \<le> 13) \<or> (28 \<le> c \<and> c \<le> 30) \<or> c = 133 \<or> c = 8232 \<or> c = 8233"

text \<open>\<^verbatim>\<open>str.splitlines()\<close> without \<^verbatim>\<open>keepends\<close>: \<open>cur\<close> is the line read so far; a
  carriage return followed by a line feed is one boundary; no empty line is added after
  the last boundary.\<close>

fun splitlines_from :: "pystr \<Rightarrow> pystr \<Rightarrow> pystr list" where
  "splitlines_from cur [] = (if cur = [] then [] else [cur])"
| "splitlines_from cur (c # cs) =
     (if c = 13 then
        (case cs of
           [] \<Rightarrow> [cur]
         | d # ds \<Rightarrow> if d = 10 then cur # splitlines_from [] ds
                    else cur # splitlines_from [] (d # ds))
      else if islinebreak c then cur # splitlines_from [] cs
      else splitlines_from (cur @ [c]) cs)"

definition splitlines :: "pystr \<Rightarrow> pystr list" where
  "splitlines s = splitlines_from [] s"

text \<open>\<^verbatim>\<open>sep.join(lines)\<close>.\<close>

fun join :: "pystr \<Rightarrow> pystr list \<Rightarrow> pystr" where
  "join sep [] = []"
| "join sep [l] = l"
| "join sep (l # m # ls) = l @ sep @ join sep (m # ls)"

text \<open>Reading a text file translates \<^verbatim>\<open>\r\n\<close> and a lone \<^verbatim>\<open>\r\<close> to \<^verbatim>\<open>\n\<close>
  (the default \<^verbatim>\<open>newline=None\<close> of \<^verbatim>\<open>open\<close>).\<close>

fun universal_newlines :: "pystr \<Rightarrow> pystr" where
  "universal_newlines [] = []"
| "universal_newlines (c # cs) =
     (if c = 13 then
        (case cs of
           [] \<Rightarrow> [10]
         | d # ds \<Rightarrow> if d = 10 then 10 # universal_newlines ds
                    else 10 # universal_newlines (d # ds))
      else c # universal_newlines cs)"

text \<open>Iterating over a text file yields its lines, each with its line feed; the last
  line may have none.\<close>

fun file_lines_from :: "pystr \<Rightarrow> pystr \<Rightarrow> pystr list" where
  "file_lines_from cur [] = (if cur = [] then [] else [cur])"
| "file_lines_from cur (c # cs) =
     (if c = 10 then (cur @ [10]) # file_lines_from [] cs
      else file_lines_from (cur @ [c]) cs)"

definition file_lines :: "pystr \<Rightarrow> pystr list" where
  "file_lines s = file_lines_from [] s"

section \<open>The world of the script: files and the terminal\<close>

text \<open>
  A path is written relative to \<^verbatim>\<open>REPO_ROOT\<close>. The world holds the text of every file
  (as decoded) and the lines the operator is still to type. Console output is not
  modelled. Every exception of the source is a value: a function returns the error, or
  its result, together with the world as it is at that moment.
\<close>

type_synonym path = string

definition PACKAGE_JSON :: path where "PACKAGE_JSON = ''package.json''"
definition PACKAGE_LOCK :: path where "PACKAGE_LOCK = ''package-lock.json''"
definition TAURI_CONF :: path where "TAURI_CONF = ''src-tauri/tauri.conf.json''"
definition CARGO_TOML :: path where "CARGO_TOML = ''src-tauri/Cargo.toml''"
definition RELEASE_WORKFLOW :: path where "RELEASE_WORKFLOW = ''.github/workflows/release.yml''"

datatype exit_message =
    Could_not_determine_current_version path
  | Input_cannot_be_empty
  | No_version_field_found path
  | Could_not_find_releaseBody path

datatype error =
    SystemExit exit_message
  | EOFError
  | FileNotFoundError path
  | JSONDecodeError
  | TypeError
  | AttributeError

text \<open>The exit status of the interpreter when the exception is not caught: a
  \<^verbatim>\<open>SystemExit\<close> that carries a message, and every other exception, end it with 1.\<close>

fun exit_status :: "error \<Rightarrow> nat" where
  "exit_status e = 1"

record world =
  files :: "path \<rightharpoonup> pystr"
  stdin :: "pystr list"

type_synonym 'a io = "world \<Rightarrow> (error + 'a) \<times> world"

definition read_text :: "path \<Rightarrow> pystr io" where
  "read_text p w =
     (case files w p of
        None \<Rightarrow> (Inl (FileNotFoundError p), w)
      | Some t \<Rightarrow> (Inr (universal_newlines t), w))"

definition write_text :: "path \<Rightarrow> pystr \<Rightarrow> unit io" where
  "write_text p t w = (Inr (), w\<lparr>files := (files w)(p \<mapsto> t)\<rparr>)"

text \<open>\<^verbatim>\<open>input(message)\<close>: the next line of the terminal, without its line end.\<close>

definition input :: "pystr \<Rightarrow> pystr io" where
  "input message w =
     (case stdin w of
        [] \<Rightarrow> (Inl EOFError, w)
      | l # ls \<Rightarrow> (Inr l, w\<lparr>stdin := ls\<rparr>))"

section \<open>\<^verbatim>\<open>prompt\<close>\<close>

definition prompt :: "pystr \<Rightarrow> pystr io" where
  "prompt message w =
     (case input message w of
        (Inl e, w') \<Rightarrow> (Inl e, w')
      | (Inr l, w') \<Rightarrow>
          (let val = strip l in
           if val = [] then (Inl (SystemExit Input_cannot_be_empty), w')
           else (Inr val, w')))"

section \<open>\<^verbatim>\<open>update_cargo_version\<close>\<close>

text \<open>
  \<^verbatim>\<open>version_pattern.match(line)\<close> for \<^verbatim>\<open>^version\s*=\s*"[^"]*"\s*$\<close>. After the
  word, each \<^verbatim>\<open>\s*\<close> is followed by a character that is no white space and
  \<^verbatim>\<open>[^"]*\<close> by a double quote, so the greedy choices are the only ones; the text left
  after the closing quote must be white space up to the end.
\<close>

fun after_prefix :: "pystr \<Rightarrow> pystr \<Rightarrow> pystr option" where
  "after_prefix [] s = Some s"
| "after_prefix (p # ps) [] = None"
| "after_prefix (p # ps) (c # cs) = (if c = p then after_prefix ps cs else None)"

definition version_pattern_match :: "pystr \<Rightarrow> bool" where
  "version_pattern_match line =
     (case after_prefix (py ''version'') line of
        None \<Rightarrow> False
      | Some r1 \<Rightarrow>
          (case dropWhile isspace r1 of
             [] \<Rightarrow> False
           | e # r2 \<Rightarrow>
               e = 61 \<and>
               (case dropWhile isspace r2 of
                  [] \<Rightarrow> False
                | q # r3 \<Rightarrow>
                    q = 34 \<and>
                    (case dropWhile (\<lambda>c. c \<noteq> 34) r3 of
                       [] \<Rightarrow> False
                     | q' # r4 \<Rightarrow> list_all isspace r4))))"

text \<open>The line \<^verbatim>\<open>f'version = "{version}"'\<close>.\<close>

definition version_line :: "pystr \<Rightarrow> pystr" where
  "version_line version = py ''version = '' @ [34] @ version @ [34]"

text \<open>The loop over the lines, with its two variables \<^verbatim>\<open>new_lines\<close> and
  \<^verbatim>\<open>replaced\<close>.\<close>

fun cargo_loop :: "pystr \<Rightarrow> pystr list \<Rightarrow> pystr list \<times> bool \<Rightarrow> pystr list \<times> bool" where
  "cargo_loop version [] (new_lines, replaced) = (new_lines, replaced)"
| "cargo_loop version (line # rest) (new_lines, replaced) =
     (if version_pattern_match line
      then cargo_loop version rest (new_lines @ [version_line version], True)
      else cargo_loop version rest (new_lines @ [line], replaced))"

definition update_cargo_version :: "path \<Rightarrow> pystr \<Rightarrow> unit io" where
  "update_cargo_version p version w =
     (case read_text p w of
        (Inl e, w1) \<Rightarrow> (Inl e, w1)
      | (Inr t, w1) \<Rightarrow>
          (case cargo_loop version (splitlines t) ([], False) of
             (new_lines, replaced) \<Rightarrow>
               if \<not> replaced then (Inl (SystemExit (No_version_field_found p)), w1)
               else write_text p (join [10] new_lines @ [10]) w1))"

section \<open>Example files\<close>

definition ex_cargo_no_version :: pystr where
  "ex_cargo_no_version = py ''[package]'' @ [10] @ py ''name = x'' @ [10]"

definition ex_cargo :: pystr where
  "ex_cargo =
     py ''[package]'' @ [10] @
     py ''version = '' @ [34] @ py ''0.1.0'' @ [34] @ [10] @
     py ''[dependencies.serde]'' @ [10] @
     py ''version   ='' @ [34] @ py ''1'' @ [34] @ py '' '' @ [10] @
     py ''  version = '' @ [34] @ py ''2'' @ [34] @ [10]"

section \<open>\<^verbatim>\<open>escape_for_yaml\<close>: the JSON encoding of a \<^verbatim>\<open>str\<close>\<close>

text \<open>
  \<^verbatim>\<open>json.dumps\<close> of a \<^verbatim>\<open>str\<close> (with the default \<^verbatim>\<open>ensure_ascii=True\<close>) is
  \<^verbatim>\<open>encode_basestring_ascii\<close>: the double quote, the backslash and the five named
  control characters get their two-character escapes, the other printable ASCII
  characters stand for themselves, every other code point below \<open>0x10000\<close> becomes
  \<^verbatim>\<open>\uXXXX\<close> with four lower-case hexadecimal digits, and a code point from
  \<open>0x10000\<close> on becomes the two escapes of its UTF-16 surrogate pair
  (\<^verbatim>\<open>0xd800 | ((n >> 10) & 0x3ff)\<close> and \<^verbatim>\<open>0xdc00 | (n & 0x3ff)\<close> for
  \<^verbatim>\<open>n = c - 0x10000\<close>; the bits joined by \<^verbatim>\<open>|\<close> are disjoint, so it is a sum).
\<close>

definition hex_digit :: "nat \<Rightarrow> nat" where
  "hex_digit d = (if d < 10 then 48 + d else 87 + d)"

text \<open>\<^verbatim>\<open>'\\u{0:04x}'.format(n)\<close>, which the encoder calls for \<open>n < 0x10000\<close> only.\<close>

definition u_escape :: "nat \<Rightarrow> pystr" where
  "u_escape n =
     [92, 117, hex_digit (n div 4096 mod 16), hex_digit (n div 256 mod 16),
      hex_digit (n div 16 mod 16), hex_digit (n mod 16)]"

definition escape_char :: "nat \<Rightarrow> pystr" where
  "escape_char c =
     (if c = 34 then [92, 34]
      else if c = 92 then [92, 92]
      else if c = 10 then [92, 110]
      else if c = 13 then [92, 114]
      else if c = 9 then [92, 116]
      else if c = 8 then [92, 98]
      else if c = 12 then [92, 102]
      else if 32 \<le> c \<and> c \<le> 126 then [c]
      else if c < 65536 then u_escape c
      else (let n = c - 65536
            in u_escape (55296 + n div 1024 mod 1024) @ u_escape (56320 + n mod 1024)))"

definition encode_basestring_ascii :: "pystr \<Rightarrow> pystr" where
  "encode_basestring_ascii s = [34] @ concat (map escape_char s) @ [34]"

definition escape_for_yaml :: "pystr \<Rightarrow> pystr" where
  "escape_for_yaml val = encode_basestring_ascii val"

section \<open>\<^verbatim>\<open>update_release_body\<close>\<close>

text \<open>\<^verbatim>\<open>line.lstrip().startswith("releaseBody:")\<close>.\<close>

definition is_release_line :: "pystr \<Rightarrow> bool" where
  "is_release_line line = startswith (lstrip line) (py ''releaseBody:'')"

text \<open>The line \<^verbatim>\<open>f"{indent}releaseBody: {escaped_body}\n"\<close>, where \<^verbatim>\<open>indent\<close> is as many
  spaces as \<^verbatim>\<open>lstrip\<close> removed characters.\<close>

definition release_line :: "pystr \<Rightarrow> pystr \<Rightarrow> pystr" where
  "release_line escaped_body line =
     (let indent = replicate (length line - length (lstrip line)) 32
      in indent @ py ''releaseBody: '' @ escaped_body @ [10])"

fun release_loop :: "pystr \<Rightarrow> pystr list \<Rightarrow> pystr list \<times> bool \<Rightarrow> pystr list \<times> bool" where
  "release_loop escaped_body [] (new_lines, replaced) = (new_lines, replaced)"
| "release_loop escaped_body (line # rest) (new_lines, replaced) =
     (if is_release_line line
      then release_loop escaped_body rest (new_lines @ [release_line escaped_body line], True)
      else release_loop escaped_body rest (new_lines @ [line], replaced))"

text \<open>\<^verbatim>\<open>path.open()\<close> and the iteration over the file: its lines, read with universal
  newlines.\<close>

definition open_lines :: "path \<Rightarrow> pystr list io" where
  "open_lines p w =
     (case files w p of
        None \<Rightarrow> (Inl (FileNotFoundError p), w)
      | Some t \<Rightarrow> (Inr (file_lines (universal_newlines t)), w))"

definition update_release_body :: "path \<Rightarrow> pystr \<Rightarrow> unit io" where
  "update_release_body p body w =
     (let escaped_body = escape_for_yaml body in
      case open_lines p w of
        (Inl e, w1) \<Rightarrow> (Inl e, w1)
      | (Inr lines, w1) \<Rightarrow>
          (case release_loop escaped_body lines ([], False) of
             (new_lines, replaced) \<Rightarrow>
               if \<not> replaced then (Inl (SystemExit (Could_not_find_releaseBody p)), w1)
               else write_text p (concat new_lines) w1))"

definition ex_workflow_tab :: pystr where
  "ex_workflow_tab = py ''with:'' @ [10] @ [9] @ py ''releaseBody: old'' @ [10]"

definition ex_workflow :: pystr where
  "ex_workflow =
     py ''with:'' @ [10] @ py ''    releaseBody: old'' @ [10] @ py ''    draft: true'' @ [10]"

section \<open>The test server: \<^verbatim>\<open>NoCacheRequestHandler\<close>\<close>

text \<open>
  The handler overrides \<^verbatim>\<open>end_headers\<close> only; everything else is
  \<^verbatim>\<open>SimpleHTTPRequestHandler\<close> and, below it, \<^verbatim>\<open>BaseHTTPRequestHandler\<close> of
  CPython's \<^verbatim>\<open>http.server\<close>, whose header methods are modelled here as they are
  written there. The handler's state is the version of the request being served
  (\<^verbatim>\<open>parse_request\<close> sets it to \<^verbatim>\<open>HTTP/0.9\<close> for a request line without a
  version), the headers buffered so far and the bytes written to the client. Bytes are
  the characters of a \<open>string\<close>.
\<close>

record handler =
  request_version :: string
  headers_buffer :: "string list"
  wfile :: string

definition CRLF :: string where
  "CRLF = [CHR 0x0D, CHR 0x0A]"

text \<open>\<^verbatim>\<open>send_response_only\<close>: the status line (protocol version, code and reason, given
  here as one text) goes to the buffer, unless the request is HTTP/0.9.\<close>

definition send_response_only :: "string \<Rightarrow> handler \<Rightarrow> handler" where
  "send_response_only status_line h =
     (if request_version h \<noteq> ''HTTP/0.9''
      then h\<lparr>headers_buffer := headers_buffer h @ [status_line @ CRLF]\<rparr>
      else h)"

text \<open>\<^verbatim>\<open>BaseHTTPRequestHandler.send_header\<close>.\<close>

definition send_header :: "string \<Rightarrow> string \<Rightarrow> handler \<Rightarrow> handler" where
  "send_header keyword val h =
     (if request_version h \<noteq> ''HTTP/0.9''
      then h\<lparr>headers_buffer := headers_buffer h @ [keyword @ '': '' @ val @ CRLF]\<rparr>
      else h)"

text \<open>\<^verbatim>\<open>send_response\<close>: the status line, then the \<^verbatim>\<open>Server\<close> and \<^verbatim>\<open>Date\<close> headers
  (their values are parameters).\<close>

definition send_response :: "string \<Rightarrow> string \<Rightarrow> string \<Rightarrow> handler \<Rightarrow> handler" where
  "send_response status_line server date h =
     send_header ''Date'' date (send_header ''Server'' server (send_response_only status_line h))"

definition flush_headers :: "handler \<Rightarrow> handler" where
  "flush_headers h = h\<lparr>wfile := wfile h @ concat (headers_buffer h), headers_buffer := []\<rparr>"

text \<open>\<^verbatim>\<open>BaseHTTPRequestHandler.end_headers\<close>, what \<^verbatim>\<open>super().end_headers()\<close> runs.\<close>

definition base_end_headers :: "handler \<Rightarrow> handler" where
  "base_end_headers h =
     (if request_version h \<noteq> ''HTTP/0.9''
      then flush_headers (h\<lparr>headers_buffer := headers_buffer h @ [CRLF]\<rparr>)
      else h)"

text \<open>\<^verbatim>\<open>NoCacheRequestHandler.end_headers\<close>.\<close>

definition end_headers :: "handler \<Rightarrow> handler" where
  "end_headers h =
     base_end_headers
       (send_header ''Expires'' ''0''
         (send_header ''Pragma'' ''no-cache''
           (send_header ''Cache-Control'' ''no-cache, no-store, must-revalidate'' h)))"

text \<open>
  Every response of the inherited handler (\<^verbatim>\<open>send_head\<close>, \<^verbatim>\<open>list_directory\<close>,
  \<^verbatim>\<open>send_error\<close>) has one shape: \<^verbatim>\<open>send_response\<close>, some \<^verbatim>\<open>send_header\<close> calls,
  \<^verbatim>\<open>self.end_headers()\<close> (the override, by dynamic dispatch), then the body written
  to \<^verbatim>\<open>wfile\<close>. Which status, headers and body a path gets is left open.
\<close>

fun send_headers :: "(string \<times> string) list \<Rightarrow> handler \<Rightarrow> handler" where
  "send_headers [] h = h"
| "send_headers ((k, v) # kvs) h = send_headers kvs (send_header k v h)"

definition respond ::
  "string \<Rightarrow> string \<Rightarrow> string \<Rightarrow> (string \<times> string) list \<Rightarrow> string \<Rightarrow> handler \<Rightarrow> handler" where
  "respond status_line server date hdrs body h =
     (let h1 = send_response status_line server date h;
          h2 = send_headers hdrs h1;
          h3 = end_headers h2
      in h3\<lparr>wfile := wfile h3 @ body\<rparr>)"

definition cache_control_line :: string where
  "cache_control_line = ''Cache-Control: no-cache, no-store, must-revalidate'' @ CRLF"

text \<open>\<open>infix_of p s\<close>: the text \<open>p\<close> occurs in \<open>s\<close>.\<close>

fun infix_of :: "string \<Rightarrow> string \<Rightarrow> bool" where
  "infix_of p [] = (p = [])"
| "infix_of p (c # cs) = (take (length p) (c # cs) = p \<or> infix_of p cs)"

section \<open>JSON documents\<close>

text \<open>
  What \<^verbatim>\<open>json.loads\<close> returns: \<^verbatim>\<open>None\<close>, a \<^verbatim>\<open>bool\<close>, an \<^verbatim>\<open>int\<close> (unbounded),
  a \<^verbatim>\<open>float\<close>, a \<^verbatim>\<open>str\<close>, a \<^verbatim>\<open>list\<close> or a \<^verbatim>\<open>dict\<close> with \<^verbatim>\<open>str\<close> keys. A
  \<^verbatim>\<open>dict\<close> keeps its keys in insertion order, so it is an association list; assigning
  to a key that is there keeps its place, a new key goes to the end.

  Binary floating point is not modelled: \<open>'f\<close> stands for the type \<^verbatim>\<open>float\<close>, and the two
  library functions that touch it are parameters of the model, \<open>float_of\<close> for
  \<^verbatim>\<open>float(text)\<close> and \<open>float_repr\<close> for the encoder's \<^verbatim>\<open>floatstr\<close> (that is
  \<^verbatim>\<open>float.__repr__\<close>, or \<^verbatim>\<open>NaN\<close>, \<^verbatim>\<open>Infinity\<close>, \<^verbatim>\<open>-Infinity\<close>). The limits of the
  interpreter (recursion depth, digits of an \<^verbatim>\<open>int\<close>) are not modelled either.
\<close>

datatype 'f json =
    JNull
  | JBool bool
  | JInt int
  | JFloat 'f
  | JStr pystr
  | JList "'f json list"
  | JDict "(pystr \<times> 'f json) list"

record 'f float_ops =
  float_of :: "pystr \<Rightarrow> 'f"
  float_repr :: "'f \<Rightarrow> pystr"

text \<open>\<^verbatim>\<open>d[k] = v\<close> and \<^verbatim>\<open>d.get(k)\<close> on a \<^verbatim>\<open>dict\<close>.\<close>

fun dict_set :: "('k \<times> 'v) list \<Rightarrow> 'k \<Rightarrow> 'v \<Rightarrow> ('k \<times> 'v) list" where
  "dict_set [] k v = [(k, v)]"
| "dict_set ((k', v') # kvs) k v =
     (if k' = k then (k', v) # kvs else (k', v') # dict_set kvs k v)"

definition dict_get :: "('k \<times> 'v) list \<Rightarrow> 'k \<Rightarrow> 'v option" where
  "dict_get kvs k = map_of kvs k"

section \<open>\<^verbatim>\<open>json.dumps(data, indent=2)\<close>\<close>

text \<open>\<^verbatim>\<open>int.__repr__\<close>: the decimal digits, after a minus sign for a negative number.\<close>

fun dec :: "nat \<Rightarrow> pystr" where
  "dec n = (if n < 10 then [48 + n] else dec (n div 10) @ [48 + n mod 10])"

declare dec.simps [simp del]

definition int_repr :: "int \<Rightarrow> pystr" where
  "int_repr i = (if i < 0 then 45 # dec (nat (- i)) else dec (nat i))"

text \<open>\<^verbatim>\<open>'\n' + ' ' * (indent * level)\<close> with \<^verbatim>\<open>indent = 2\<close>.\<close>

definition newline_indent :: "nat \<Rightarrow> pystr" where
  "newline_indent level = 10 # replicate (2 * level) 32"

text \<open>
  \<^verbatim>\<open>_iterencode\<close>, \<^verbatim>\<open>_iterencode_list\<close> and \<^verbatim>\<open>_iterencode_dict\<close> of
  \<^verbatim>\<open>json.encoder\<close>, with the chunks they yield concatenated. With an indent the item
  separator is a comma followed by the new line and its indentation, the key separator
  is a colon and a space, and an empty list or dict is written without a line break.
  \<open>iterencode_list\<close> and \<open>iterencode_dict\<close> write the items at the level given.
\<close>

fun iterencode :: "'f float_ops \<Rightarrow> nat \<Rightarrow> 'f json \<Rightarrow> pystr"
  and iterencode_list :: "'f float_ops \<Rightarrow> nat \<Rightarrow> 'f json list \<Rightarrow> pystr"
  and iterencode_dict :: "'f float_ops \<Rightarrow> nat \<Rightarrow> (pystr \<times> 'f json) list \<Rightarrow> pystr" where
  "iterencode F level JNull = py ''null''"
| "iterencode F level (JBool b) = (if b then py ''true'' else py ''false'')"
| "iterencode F level (JInt i) = int_repr i"
| "iterencode F level (JFloat x) = float_repr F x"
| "iterencode F level (JStr s) = encode_basestring_ascii s"
| "iterencode F level (JList xs) =
     (if xs = [] then py ''[]''
      else [91] @ newline_indent (level + 1) @ iterencode_list F (level + 1) xs @
           newline_indent level @ [93])"
| "iterencode F level (JDict kvs) =
     (if kvs = [] then py ''{}''
      else [123] @ newline_indent (level + 1) @ iterencode_dict F (level + 1) kvs @
           newline_indent level @ [125])"
| "iterencode_list F level [] = []"
| "iterencode_list F level (x # xs) =
     iterencode F level x @
     (if xs = [] then [] else [44] @ newline_indent level @ iterencode_list F level xs)"
| "iterencode_dict F level [] = []"
| "iterencode_dict F level ((k, v) # kvs) =
     encode_basestring_ascii k @ py '': '' @ iterencode F level v @
     (if kvs = [] then [] else [44] @ newline_indent level @ iterencode_dict F level kvs)"

definition json_dumps :: "'f float_ops \<Rightarrow> 'f json \<Rightarrow> pystr" where
  "json_dumps F data = iterencode F 0 data"

section \<open>\<^verbatim>\<open>json.loads\<close>\<close>

text \<open>The decoder is the scanner of CPython's \<^verbatim>\<open>_json\<close> module (\<^verbatim>\<open>scan_once\<close>,
  \<^verbatim>\<open>scanstring\<close> in strict mode, \<^verbatim>\<open>_parse_object\<close>, \<^verbatim>\<open>_parse_array\<close>,
  \<^verbatim>\<open>_match_number\<close>). \<open>None\<close> stands for \<^verbatim>\<open>JSONDecodeError\<close>.\<close>

definition is_json_ws :: "nat \<Rightarrow> bool" where
  "is_json_ws c \<longleftrightarrow> c = 32 \<or> c = 9 \<or> c = 10 \<or> c = 13"

definition skip_ws :: "pystr \<Rightarrow> pystr" where
  "skip_ws s = dropWhile is_json_ws s"

definition isdigit :: "nat \<Rightarrow> bool" where
  "isdigit c \<longleftrightarrow> 48 \<le> c \<and> c \<le> 57"

text \<open>The value of a hexadecimal digit, in either case.\<close>

definition hex_val :: "nat \<Rightarrow> nat option" where
  "hex_val c =
     (if 48 \<le> c \<and> c \<le> 57 then Some (c - 48)
      else if 97 \<le> c \<and> c \<le> 102 then Some (c - 87)
      else if 65 \<le> c \<and> c \<le> 70 then Some (c - 55)
      else None)"

definition decode_hex4 :: "nat \<Rightarrow> nat \<Rightarrow> nat \<Rightarrow> nat \<Rightarrow> nat option" where
  "decode_hex4 a b c d =
     (case (hex_val a, hex_val b, hex_val c, hex_val d) of
        (Some x, Some y, Some z, Some u) \<Rightarrow> Some (4096 * x + 256 * y + 16 * z + u)
      | _ \<Rightarrow> None)"

definition is_high_surrogate :: "nat \<Rightarrow> bool" where
  "is_high_surrogate c \<longleftrightarrow> 55296 \<le> c \<and> c \<le> 56319"

definition is_low_surrogate :: "nat \<Rightarrow> bool" where
  "is_low_surrogate c \<longleftrightarrow> 56320 \<le> c \<and> c \<le> 57343"

text \<open>\<^verbatim>\<open>Py_UNICODE_JOIN_SURROGATES\<close>.\<close>

definition join_surrogates :: "nat \<Rightarrow> nat \<Rightarrow> nat" where
  "join_surrogates hi lo = 65536 + ((hi - 55296) * 1024 + (lo - 56320))"

text \<open>The characters a backslash may stand before, other than \<^verbatim>\<open>u\<close>.\<close>

definition backslash :: "nat \<Rightarrow> nat option" where
  "backslash e =
     (if e = 34 then Some 34
      else if e = 92 then Some 92
      else if e = 47 then Some 47
      else if e = 98 then Some 8
      else if e = 102 then Some 12
      else if e = 110 then Some 10
      else if e = 114 then Some 13
      else if e = 116 then Some 9
      else None)"

definition str_cons :: "nat \<Rightarrow> (pystr \<times> pystr) option \<Rightarrow> (pystr \<times> pystr) option" where
  "str_cons c r = (case r of None \<Rightarrow> None | Some (str, rest) \<Rightarrow> Some (c # str, rest))"

text \<open>
  One round of the loop of \<^verbatim>\<open>scanstring\<close>: the closing quote, one decoded character,
  or an error. A \<^verbatim>\<open>\u\<close> escape needs its four digits and one more character after
  them; after a high surrogate, a second \<^verbatim>\<open>\u\<close> escape (with one more character
  after it) is read at once, joined to the first when it is a low surrogate and left
  for the next round otherwise.
\<close>

datatype str_step = Str_end pystr | Str_char nat pystr | Str_error

definition second_surrogate :: "nat \<Rightarrow> pystr \<Rightarrow> str_step" where
  "second_surrogate uni s =
     (if 6 < length s \<and> s ! 0 = 92 \<and> s ! 1 = 117 then
        (case decode_hex4 (s ! 2) (s ! 3) (s ! 4) (s ! 5) of
           None \<Rightarrow> Str_error
         | Some uni2 \<Rightarrow>
             if is_low_surrogate uni2 then Str_char (join_surrogates uni uni2) (drop 6 s)
             else Str_char uni s)
      else Str_char uni s)"

definition string_step :: "pystr \<Rightarrow> str_step" where
  "string_step s =
     (case s of
        [] \<Rightarrow> Str_error
      | c # cs \<Rightarrow>
          if c = 34 then Str_end cs
          else if c = 92 then
            (case cs of
               [] \<Rightarrow> Str_error
             | e # es \<Rightarrow>
                 if e \<noteq> 117 then
                   (case backslash e of
                      None \<Rightarrow> Str_error
                    | Some ch \<Rightarrow> Str_char ch es)
                 else if length es < 5 then Str_error
                 else
                   (case decode_hex4 (es ! 0) (es ! 1) (es ! 2) (es ! 3) of
                      None \<Rightarrow> Str_error
                    | Some uni \<Rightarrow>
                        if is_high_surrogate uni then second_surrogate uni (drop 4 es)
                        else Str_char uni (drop 4 es)))
          else if c < 32 then Str_error
          else Str_char c cs)"

lemma second_surrogate_shorter:
  "second_surrogate uni s = Str_char c rest \<Longrightarrow> length rest \<le> length s"
  by (auto simp: second_surrogate_def split: list.splits if_splits option.splits)

lemma string_step_shorter:
  "string_step s = Str_char c rest \<Longrightarrow> length rest < length s"
  by (auto simp: string_step_def split: list.splits if_splits option.splits
      dest!: second_surrogate_shorter)

text \<open>\<^verbatim>\<open>scanstring\<close> in strict mode, from just after the opening quote: the decoded
  text and what follows the closing quote.\<close>

function scanstring :: "pystr \<Rightarrow> (pystr \<times> pystr) option" where
  "scanstring s =
     (case string_step s of
        Str_error \<Rightarrow> None
      | Str_end rest \<Rightarrow> Some ([], rest)
      | Str_char c rest \<Rightarrow> str_cons c (scanstring rest))"
  by pat_completeness auto
termination
  by (relation "measure length") (auto dest: string_step_shorter)

declare scanstring.simps [simp del]

text \<open>\<^verbatim>\<open>_match_number\<close>: the text of the number, whether it is a float, and the rest.
  A fraction is a point followed by a digit; an exponent sign is read only when a
  character follows it; an exponent without digits is given back.\<close>

definition scan_frac :: "pystr \<Rightarrow> pystr \<times> pystr" where
  "scan_frac s =
     (case s of
        p # d # ds \<Rightarrow>
          if p = 46 \<and> isdigit d then (p # d # takeWhile isdigit ds, dropWhile isdigit ds)
          else ([], s)
      | _ \<Rightarrow> ([], s))"

definition scan_exp :: "pystr \<Rightarrow> pystr \<times> pystr" where
  "scan_exp s =
     (case s of
        [] \<Rightarrow> ([], s)
      | e # cs \<Rightarrow>
          if e = 101 \<or> e = 69 then
            (case (case cs of
                     sg # x # xs \<Rightarrow> if sg = 45 \<or> sg = 43 then ([sg], x # xs) else ([], cs)
                   | _ \<Rightarrow> ([], cs)) of
               (sign, ds) \<Rightarrow>
                 if takeWhile isdigit ds \<noteq> []
                 then (e # sign @ takeWhile isdigit ds, dropWhile isdigit ds)
                 else ([], s))
          else ([], s))"

definition scan_int :: "pystr \<Rightarrow> (pystr \<times> pystr) option" where
  "scan_int s =
     (case (case s of
              [] \<Rightarrow> ([], s)
            | m # cs \<Rightarrow> if m = 45 then ([m], cs) else ([], s)) of
        (sign, s1) \<Rightarrow>
          (case s1 of
             [] \<Rightarrow> None
           | d # ds \<Rightarrow>
               if 49 \<le> d \<and> d \<le> 57
               then Some (sign @ d # takeWhile isdigit ds, dropWhile isdigit ds)
               else if d = 48 then Some (sign @ [d], ds)
               else None))"

definition match_number :: "pystr \<Rightarrow> (pystr \<times> bool \<times> pystr) option" where
  "match_number s =
     (case scan_int s of
        None \<Rightarrow> None
      | Some (ip, s1) \<Rightarrow>
          (case scan_frac s1 of
             (frac, s2) \<Rightarrow>
               (case scan_exp s2 of
                  (ex, s3) \<Rightarrow> Some (ip @ frac @ ex, frac \<noteq> [] \<or> ex \<noteq> [], s3))))"

text \<open>\<^verbatim>\<open>int(text)\<close> on the text of an integer.\<close>

definition nat_of_digits :: "pystr \<Rightarrow> nat" where
  "nat_of_digits ds = foldl (\<lambda>a d. 10 * a + (d - 48)) 0 ds"

definition int_of_text :: "pystr \<Rightarrow> int" where
  "int_of_text t =
     (case t of
        [] \<Rightarrow> 0
      | m # ds \<Rightarrow> if m = 45 then - int (nat_of_digits ds) else int (nat_of_digits t))"

text \<open>The values of \<^verbatim>\<open>scan_once\<close> that are neither a string, an object nor an array.\<close>

definition scan_atom :: "'f float_ops \<Rightarrow> pystr \<Rightarrow> ('f json \<times> pystr) option" where
  "scan_atom F s =
     (if startswith s (py ''null'') then Some (JNull, drop 4 s)
      else if startswith s (py ''true'') then Some (JBool True, drop 4 s)
      else if startswith s (py ''false'') then Some (JBool False, drop 5 s)
      else if startswith s (py ''NaN'') then Some (JFloat (float_of F (py ''NaN'')), drop 3 s)
      else if startswith s (py ''Infinity'')
        then Some (JFloat (float_of F (py ''Infinity'')), drop 8 s)
      else if startswith s (py ''-Infinity'')
        then Some (JFloat (float_of F (py ''-Infinity'')), drop 9 s)
      else
        (case match_number s of
           None \<Rightarrow> None
         | Some (t, is_float, rest) \<Rightarrow>
             Some (if is_float then JFloat (float_of F t) else JInt (int_of_text t), rest)))"

text \<open>The head of one pair in \<^verbatim>\<open>_parse_object\<close>: the key in double quotes, white
  space, the colon, white space.\<close>

definition read_key :: "pystr \<Rightarrow> (pystr \<times> pystr) option" where
  "read_key s =
     (case s of
        [] \<Rightarrow> None
      | q # s1 \<Rightarrow>
          if q \<noteq> 34 then None
          else
            (case scanstring s1 of
               None \<Rightarrow> None
             | Some (key, s2) \<Rightarrow>
                 (case skip_ws s2 of
                    [] \<Rightarrow> None
                  | colon # s3 \<Rightarrow> if colon \<noteq> 58 then None else Some (key, skip_ws s3))))"

text \<open>After a value in an object or an array: white space, then the closing bracket, or
  a comma and white space before the next item.\<close>

datatype item_end = Closed pystr | More pystr | No_delimiter

definition after_item :: "nat \<Rightarrow> pystr \<Rightarrow> item_end" where
  "after_item closer s =
     (case skip_ws s of
        [] \<Rightarrow> No_delimiter
      | d # r \<Rightarrow>
          if d = closer then Closed r
          else if d = 44 then More (skip_ws r)
          else No_delimiter)"

text \<open>
  \<^verbatim>\<open>scan_once\<close> with the loops of \<^verbatim>\<open>_parse_object\<close> and \<^verbatim>\<open>_parse_array\<close>. The first
  number bounds the calls still allowed (one per value, pair and item); \<open>json_loads\<close>
  starts with more than the text has characters, which is more than any text needs
  (\<open>scan_once_fuel\<close> below). \<open>parse_pairs\<close> and \<open>parse_array\<close> start at the first key
  and the first item, with the pairs and items read so far.
\<close>

fun scan_once :: "'f float_ops \<Rightarrow> nat \<Rightarrow> pystr \<Rightarrow> ('f json \<times> pystr) option"
  and parse_pairs ::
    "'f float_ops \<Rightarrow> nat \<Rightarrow> (pystr \<times> 'f json) list \<Rightarrow> pystr \<Rightarrow> ('f json \<times> pystr) option"
  and parse_array ::
    "'f float_ops \<Rightarrow> nat \<Rightarrow> 'f json list \<Rightarrow> pystr \<Rightarrow> ('f json \<times> pystr) option" where
  "scan_once F 0 s = None"
| "scan_once F (Suc n) [] = None"
| "scan_once F (Suc n) (c # cs) =
     (if c = 34 then
        (case scanstring cs of
           None \<Rightarrow> None
         | Some (str, rest) \<Rightarrow> Some (JStr str, rest))
      else if c = 123 then
        (if startswith (skip_ws cs) [125] then Some (JDict [], tl (skip_ws cs))
         else parse_pairs F n [] (skip_ws cs))
      else if c = 91 then
        (if startswith (skip_ws cs) [93] then Some (JList [], tl (skip_ws cs))
         else parse_array F n [] (skip_ws cs))
      else scan_atom F (c # cs))"
| "parse_pairs F 0 acc s = None"
| "parse_pairs F (Suc n) acc s =
     (case read_key s of
        None \<Rightarrow> None
      | Some (key, s1) \<Rightarrow>
          (case scan_once F n s1 of
             None \<Rightarrow> None
           | Some (val, s2) \<Rightarrow>
               (case after_item 125 s2 of
                  Closed r \<Rightarrow> Some (JDict (dict_set acc key val), r)
                | More r \<Rightarrow> parse_pairs F n (dict_set acc key val) r
                | No_delimiter \<Rightarrow> None)))"
| "parse_array F 0 acc s = None"
| "parse_array F (Suc n) acc s =
     (case scan_once F n s of
        None \<Rightarrow> None
      | Some (val, s1) \<Rightarrow>
          (case after_item 93 s1 of
             Closed r \<Rightarrow> Some (JList (acc @ [val]), r)
           | More r \<Rightarrow> parse_array F n (acc @ [val]) r
           | No_delimiter \<Rightarrow> None))"

text \<open>\<^verbatim>\<open>json.loads(s)\<close> for a \<^verbatim>\<open>str\<close>: a leading byte order mark is refused, white
  space may stand around the one value, and nothing else may follow it.\<close>

definition json_loads :: "'f float_ops \<Rightarrow> pystr \<Rightarrow> error + 'f json" where
  "json_loads F s =
     (if startswith s [65279] then Inl JSONDecodeError
      else
        (case scan_once F (Suc (length s)) (skip_ws s) of
           None \<Rightarrow> Inl JSONDecodeError
         | Some (obj, rest) \<Rightarrow>
             if skip_ws rest = [] then Inr obj else Inl JSONDecodeError))"

text \<open>
  \<open>str_ok s\<close>: every element is a code point (below \<open>0x110000\<close>) and no high surrogate
  stands directly before a low surrogate. Text decoded from a terminal or a file holds no
  surrogate pair (a decoder yields the one code point instead), so every operator input
  and every file content is such a text.
\<close>

fun str_ok :: "pystr \<Rightarrow> bool" where
  "str_ok [] = True"
| "str_ok [c] = (c < 1114112)"
| "str_ok (c # d # s) =
     (c < 1114112 \<and> \<not> (is_high_surrogate c \<and> is_low_surrogate d) \<and> str_ok (d # s))"

text \<open>A stand-in for \<^verbatim>\<open>float\<close> with the single value \<^verbatim>\<open>0.0\<close>, for the examples.\<close>

definition one_float :: "unit float_ops" where
  "one_float = \<lparr>float_of = (\<lambda>t. ()), float_repr = (\<lambda>x. py ''0.0'')\<rparr>"

definition ex_body :: pystr where
  "ex_body = py ''Fixes '' @ [34] @ py ''login'' @ [34] @ [10] @ py ''and more''"

section \<open>The JSON updates and \<^verbatim>\<open>main\<close>\<close>

text \<open>Sequencing: the next statement runs in the world the one before left, and an
  exception ends the run with the world as it is.\<close>

definition io_bind :: "'a io \<Rightarrow> ('a \<Rightarrow> 'b io) \<Rightarrow> 'b io" where
  "io_bind m f w = (case m w of (Inl e, w') \<Rightarrow> (Inl e, w') | (Inr x, w') \<Rightarrow> f x w')"

definition io_raise :: "error \<Rightarrow> 'a io" where
  "io_raise e w = (Inl e, w)"

definition io_return :: "'a \<Rightarrow> 'a io" where
  "io_return x w = (Inr x, w)"

text \<open>A computation that does not touch the world.\<close>

definition io_pure :: "error + 'a \<Rightarrow> 'a io" where
  "io_pure r w = (r, w)"

text \<open>\<^verbatim>\<open>data[key] = value\<close>: on a \<^verbatim>\<open>dict\<close> the assignment; on a list (whose indices are
  integers) and on every other value of a document a \<^verbatim>\<open>TypeError\<close>.\<close>

definition setitem :: "'f json \<Rightarrow> pystr \<Rightarrow> 'f json \<Rightarrow> error + 'f json" where
  "setitem data key val =
     (case data of
        JDict kvs \<Rightarrow> Inr (JDict (dict_set kvs key val))
      | _ \<Rightarrow> Inl TypeError)"

text \<open>
  The lines of \<^verbatim>\<open>update_json_version\<close> about \<^verbatim>\<open>packages\<close>, on the \<^verbatim>\<open>dict\<close> that
  \<^verbatim>\<open>data\<close> is by then: when \<^verbatim>\<open>data.get("packages")\<close> is a \<^verbatim>\<open>dict\<close> that has the key
  \<^verbatim>\<open>""\<close> and the value there is a \<^verbatim>\<open>dict\<close>, its \<^verbatim>\<open>"version"\<close> is assigned. The source
  mutates the nested \<^verbatim>\<open>dict\<close> in place; here the document is rebuilt around it.
\<close>

definition set_root_package_version :: "'f json \<Rightarrow> pystr \<Rightarrow> 'f json" where
  "set_root_package_version data version =
     (case data of
        JDict kvs \<Rightarrow>
          (case dict_get kvs (py ''packages'') of
             Some (JDict packages) \<Rightarrow>
               (case dict_get packages [] of
                  Some (JDict root_package) \<Rightarrow>
                    JDict (dict_set kvs (py ''packages'')
                      (JDict (dict_set packages []
                        (JDict (dict_set root_package (py ''version'') (JStr version))))))
                | _ \<Rightarrow> data)
           | _ \<Rightarrow> data)
      | _ \<Rightarrow> data)"

definition update_json_version :: "'f float_ops \<Rightarrow> path \<Rightarrow> pystr \<Rightarrow> unit io" where
  "update_json_version F p version =
     io_bind (read_text p) (\<lambda>text.
     io_bind (io_pure (json_loads F text)) (\<lambda>data.
     io_bind (io_pure (setitem data (py ''version'') (JStr version))) (\<lambda>data1.
     write_text p (json_dumps F (set_root_package_version data1 version) @ [10]))))"

definition update_tauri_conf :: "'f float_ops \<Rightarrow> path \<Rightarrow> pystr \<Rightarrow> unit io" where
  "update_tauri_conf F p version =
     io_bind (read_text p) (\<lambda>text.
     io_bind (io_pure (json_loads F text)) (\<lambda>data.
     io_bind (io_pure (setitem data (py ''version'') (JStr version))) (\<lambda>data1.
     write_text p (json_dumps F data1 @ [10]))))"

text \<open>\<^verbatim>\<open>get_current_version\<close>: \<^verbatim>\<open>data.get\<close> exists on a \<^verbatim>\<open>dict\<close> only.\<close>

definition get_current_version :: "'f float_ops \<Rightarrow> pystr io" where
  "get_current_version F =
     io_bind (read_text PACKAGE_JSON) (\<lambda>text.
     io_bind (io_pure (json_loads F text)) (\<lambda>data.
       (case data of
          JDict kvs \<Rightarrow>
            (case dict_get kvs (py ''version'') of
               Some (JStr version) \<Rightarrow>
                 if strip version = []
                 then io_raise (SystemExit (Could_not_determine_current_version PACKAGE_JSON))
                 else io_return version
             | _ \<Rightarrow> io_raise (SystemExit (Could_not_determine_current_version PACKAGE_JSON)))
        | _ \<Rightarrow> io_raise AttributeError)))"

definition main :: "'f float_ops \<Rightarrow> unit io" where
  "main F =
     io_bind (get_current_version F) (\<lambda>current_version.
     io_bind (prompt (py ''Enter the new version ['' @ current_version @
                      py ''] (e.g. 1.2.3): '')) (\<lambda>version.
     io_bind (prompt (py ''Enter the release notes/description: '')) (\<lambda>release_body.
     io_bind (update_json_version F PACKAGE_JSON version) (\<lambda>_.
     io_bind (update_json_version F PACKAGE_LOCK version) (\<lambda>_.
     io_bind (update_tauri_conf F TAURI_CONF version) (\<lambda>_.
     io_bind (update_cargo_version CARGO_TOML version) (\<lambda>_.
     update_release_body RELEASE_WORKFLOW release_body)))))))"

section \<open>Well-formed documents and what the proofs measure\<close>

text \<open>
  A \<^verbatim>\<open>dict\<close> has each key once, and every text in a document is a text as \<open>str_ok\<close>
  describes. \<open>wf_json\<close> says so of an association-list document.
\<close>

fun wf_json :: "'f json \<Rightarrow> bool"
  and wf_list :: "'f json list \<Rightarrow> bool"
  and wf_dict :: "(pystr \<times> 'f json) list \<Rightarrow> bool" where
  "wf_json JNull = True"
| "wf_json (JBool b) = True"
| "wf_json (JInt i) = True"
| "wf_json (JFloat x) = True"
| "wf_json (JStr s) = str_ok s"
| "wf_json (JList xs) = wf_list xs"
| "wf_json (JDict kvs) = (distinct (map fst kvs) \<and> wf_dict kvs)"
| "wf_list [] = True"
| "wf_list (x # xs) = (wf_json x \<and> wf_list xs)"
| "wf_dict [] = True"
| "wf_dict ((k, v) # kvs) = (str_ok k \<and> wf_json v \<and> wf_dict kvs)"

text \<open>
  What is assumed of the two float functions: \<^verbatim>\<open>floatstr\<close> writes \<^verbatim>\<open>NaN\<close>,
  \<^verbatim>\<open>Infinity\<close>, \<^verbatim>\<open>-Infinity\<close> or a number that \<^verbatim>\<open>_match_number\<close> reads whole and as a
  float (\<^verbatim>\<open>float.__repr__\<close> always has a fraction or an exponent), and \<^verbatim>\<open>float\<close> of
  that text is the float again (\<^verbatim>\<open>repr\<close> of a float round-trips).
\<close>

definition float_text :: "pystr \<Rightarrow> bool" where
  "float_text t \<longleftrightarrow>
     t = py ''NaN'' \<or> t = py ''Infinity'' \<or> t = py ''-Infinity'' \<or>
     match_number t = Some (t, True, [])"

definition float_ok :: "'f float_ops \<Rightarrow> bool" where
  "float_ok F \<longleftrightarrow> (\<forall>x. float_text (float_repr F x) \<and> float_of F (float_repr F x) = x)"

text \<open>What may follow a value in the encoder's output: nothing, a comma or a line
  feed.\<close>

definition delimited :: "pystr \<Rightarrow> bool" where
  "delimited rest \<longleftrightarrow> rest = [] \<or> hd rest = 44 \<or> hd rest = 10"

text \<open>A bound on the calls \<open>scan_once\<close> needs to read a document back.\<close>

fun need :: "'f json \<Rightarrow> nat"
  and need_list :: "'f json list \<Rightarrow> nat"
  and need_dict :: "(pystr \<times> 'f json) list \<Rightarrow> nat" where
  "need JNull = 1"
| "need (JBool b) = 1"
| "need (JInt i) = 1"
| "need (JFloat x) = 1"
| "need (JStr s) = 1"
| "need (JList xs) = 1 + need_list xs"
| "need (JDict kvs) = 1 + need_dict kvs"
| "need_list [] = 0"
| "need_list (x # xs) = 1 + need x + need_list xs"
| "need_dict [] = 0"
| "need_dict ((k, v) # kvs) = 1 + need v + need_dict kvs"

text \<open>A text without surrogate code points, as every decoder of a file yields.\<close>

definition unicode_text :: "pystr \<Rightarrow> bool" where
  "unicode_text t \<longleftrightarrow>
     (\<forall>c \<in> set t. c < 1114112 \<and> \<not> is_high_surrogate c \<and> \<not> is_low_surrogate c)"

text \<open>The characters a value of the encoder's output begins with.\<close>

definition value_start :: "nat \<Rightarrow> bool" where
  "value_start c \<longleftrightarrow>
     c = 34 \<or> c = 45 \<or> c = 73 \<or> c = 78 \<or> c = 91 \<or> c = 102 \<or> c = 110 \<or> c = 116 \<or>
     c = 123 \<or> isdigit c"

text \<open>A document with a nested root-package entry, as \<^verbatim>\<open>package-lock.json\<close> has one.\<close>

definition ex_doc :: "unit json" where
  "ex_doc =
     JDict [(py ''name'', JStr (py ''app'')),
            (py ''version'', JStr (py ''1.0.0'')),
            (py ''packages'',
               JDict [([], JDict [(py ''name'', JStr (py ''app'')),
                                  (py ''version'', JStr (py ''1.0.0''))])])]"

text \<open>\<open>keeps q m\<close>: whatever the computation \<open>m\<close> returns, the file \<open>q\<close> is as it
  was.\<close>

definition keeps :: "path \<Rightarrow> 'a io \<Rightarrow> bool" where
  "keeps q m \<longleftrightarrow> (\<forall>w r w'. m w = (r, w') \<longrightarrow> files w' q = files w q)"

text \<open>An example repository: the five files \<^verbatim>\<open>main\<close> reads and writes.\<close>

definition ex_manifest :: "unit json" where
  "ex_manifest = JDict [(py ''name'', JStr (py ''app'')), (py ''version'', JStr (py ''1.0.0''))]"

definition ex_repo :: "path \<rightharpoonup> pystr" where
  "ex_repo =
     [PACKAGE_JSON \<mapsto> json_dumps one_float ex_manifest @ [10],
      PACKAGE_LOCK \<mapsto> json_dumps one_float ex_doc @ [10],
      TAURI_CONF \<mapsto> json_dumps one_float ex_manifest @ [10],
      CARGO_TOML \<mapsto> ex_cargo,
      RELEASE_WORKFLOW \<mapsto> ex_workflow]"

definition ex_world :: world where
  "ex_world = \<lparr>files = ex_repo, stdin = [py '' 1.2.3'', py ''Fixes'']\<rparr>"

definition ex_world_no_version :: world where
  "ex_world_no_version =
     \<lparr>files = ex_repo(CARGO_TOML \<mapsto> ex_cargo_no_version), stdin = [py '' 1.2.3'', py ''Fixes'']\<rparr>"

chapter \<open>Properties\<close>

section \<open>Text functions\<close>

lemma py_Nil: "py [] = []"
  by (simp add: py_def)

lemma py_Cons: "py (c # cs) = of_char c # py cs"
  by (simp add: py_def)

lemma after_prefix_append: "after_prefix p (p @ s) = Some s"
  by (induction p) auto

lemma after_prefix_Some: "after_prefix p s = Some r \<Longrightarrow> s = p @ r"
  by (induction p s rule: after_prefix.induct) (auto split: if_splits)

lemma cargo_loop_eq:
  "cargo_loop version ls (acc, r) =
     (acc @ map (\<lambda>l. if version_pattern_match l then version_line version else l) ls,
      r \<or> (\<exists>l \<in> set ls. version_pattern_match l))"
  by (induction ls arbitrary: acc r) auto

lemma isspace_61: "\<not> isspace 61" by (simp add: isspace_def)
lemma isspace_34: "\<not> isspace 34" by (simp add: isspace_def)

lemma dropWhile_all_then: "\<forall>x \<in> set xs. P x \<Longrightarrow> \<not> P y \<Longrightarrow> dropWhile P (xs @ y # ys) = y # ys"
  by (induction xs) auto

lemma version_pattern_match_iff:
  "version_pattern_match line \<longleftrightarrow>
     (\<exists>w1 w2 b w3. line = py ''version'' @ w1 @ [61] @ w2 @ [34] @ b @ [34] @ w3 \<and>
        list_all isspace w1 \<and> list_all isspace w2 \<and> 34 \<notin> set b \<and> list_all isspace w3)"
  (is "?L \<longleftrightarrow> ?R")
proof
  assume ?L
  then obtain r1 r2 r3 r4 where
    a: "after_prefix (py ''version'') line = Some r1" and
    b: "dropWhile isspace r1 = 61 # r2" and
    c: "dropWhile isspace r2 = 34 # r3" and
    d: "dropWhile (\<lambda>c. c \<noteq> 34) r3 = 34 # r4" and
    e: "list_all isspace r4"
    unfolding version_pattern_match_def
    by (auto split: option.splits list.splits simp: dropWhile_eq_Cons_conv)
  have 1: "line = py ''version'' @ r1" using a by (rule after_prefix_Some)
  have 2: "r1 = takeWhile isspace r1 @ 61 # r2" using b takeWhile_dropWhile_id[of isspace r1] by simp
  have 3: "r2 = takeWhile isspace r2 @ 34 # r3" using c takeWhile_dropWhile_id[of isspace r2] by simp
  have 4: "r3 = takeWhile (\<lambda>c. c \<noteq> 34) r3 @ 34 # r4"
    using d takeWhile_dropWhile_id[of "\<lambda>c. c \<noteq> 34" r3] by simp
  have 5: "34 \<notin> set (takeWhile (\<lambda>c. c \<noteq> 34) r3)" by (auto dest: set_takeWhileD)
  have "line = py ''version'' @ takeWhile isspace r1 @ [61] @ takeWhile isspace r2 @ [34] @
      takeWhile (\<lambda>c. c \<noteq> 34) r3 @ [34] @ r4"
    using 1 2 3 4 by (metis append_Cons append_Nil)
  moreover have "list_all isspace (takeWhile isspace r1)" "list_all isspace (takeWhile isspace r2)"
    by (auto simp: list_all_iff dest: set_takeWhileD)
  ultimately show ?R using 5 e by blast
next
  assume ?R
  then obtain w1 w2 b w3 where
    l: "line = py ''version'' @ w1 @ [61] @ w2 @ [34] @ b @ [34] @ w3" and
    w: "list_all isspace w1" "list_all isspace w2" "34 \<notin> set b" "list_all isspace w3"
    by blast
  have a: "after_prefix (py ''version'') line = Some (w1 @ 61 # w2 @ 34 # b @ 34 # w3)"
    unfolding l using after_prefix_append[of "py ''version''"] by simp
  have b: "dropWhile isspace (w1 @ 61 # w2 @ 34 # b @ 34 # w3) = 61 # w2 @ 34 # b @ 34 # w3"
    using w(1) by (intro dropWhile_all_then) (auto simp: list_all_iff isspace_61)
  have c: "dropWhile isspace (w2 @ 34 # b @ 34 # w3) = 34 # b @ 34 # w3"
    using w(2) by (intro dropWhile_all_then) (auto simp: list_all_iff isspace_34)
  have d: "dropWhile (\<lambda>c. c \<noteq> 34) (b @ 34 # w3) = 34 # w3"
    using w(3) by (intro dropWhile_all_then) auto
  show ?L unfolding version_pattern_match_def using a b c d w(4) by simp
qed

lemma takeWhile_lstrip: "s = takeWhile isspace s @ lstrip s"
  by (simp add: lstrip_def)

lemma rstrip_decomp: "s = rstrip s @ rev (takeWhile isspace (rev s))"
proof -
  have "rev s = takeWhile isspace (rev s) @ dropWhile isspace (rev s)" by simp
  then have "rev (rev s) = rev (takeWhile isspace (rev s) @ dropWhile isspace (rev s))" by simp
  then show ?thesis unfolding rstrip_def by (simp del: takeWhile_dropWhile_id)
qed

lemma strip_decomp:
  "\<exists>a b. s = a @ strip s @ b \<and> list_all isspace a \<and> list_all isspace b"
proof -
  let ?a = "takeWhile isspace s"
  let ?b = "rev (takeWhile isspace (rev (lstrip s)))"
  have "s = ?a @ lstrip s" by (rule takeWhile_lstrip)
  also have "lstrip s = strip s @ ?b" unfolding strip_def by (rule rstrip_decomp)
  finally have "s = ?a @ strip s @ ?b" .
  moreover have "list_all isspace ?a" "list_all isspace ?b"
    by (auto simp: list_all_iff dest: set_takeWhileD)
  ultimately show ?thesis by blast
qed

lemma dropWhile_all_iff: "(\<forall>x \<in> set (dropWhile P s). P x) \<longleftrightarrow> (\<forall>x \<in> set s. P x)"
  by (induction s) auto

lemma strip_Nil_iff: "strip s = [] \<longleftrightarrow> list_all isspace s"
  by (simp add: strip_def rstrip_def lstrip_def list_all_iff dropWhile_eq_Nil_conv dropWhile_all_iff)

lemma lstrip_hd: "lstrip s \<noteq> [] \<Longrightarrow> \<not> isspace (hd (lstrip s))"
  unfolding lstrip_def by (rule hd_dropWhile)

lemma rstrip_last: "rstrip s \<noteq> [] \<Longrightarrow> \<not> isspace (last (rstrip s))"
  unfolding rstrip_def by (simp add: last_rev hd_dropWhile)

lemma rstrip_hd: "rstrip s \<noteq> [] \<Longrightarrow> hd (rstrip s) = hd s"
proof -
  assume "rstrip s \<noteq> []"
  moreover have "s = rstrip s @ rev (takeWhile isspace (rev s))" by (rule rstrip_decomp)
  ultimately show ?thesis by (metis hd_append2)
qed

lemma strip_hd: "strip s \<noteq> [] \<Longrightarrow> \<not> isspace (hd (strip s))"
proof -
  assume a: "strip s \<noteq> []"
  then have "lstrip s \<noteq> []" by (auto simp: strip_def rstrip_def)
  then have "\<not> isspace (hd (lstrip s))" by (rule lstrip_hd)
  moreover have "hd (strip s) = hd (lstrip s)" using a unfolding strip_def by (rule rstrip_hd)
  ultimately show ?thesis by simp
qed

lemma strip_last: "strip s \<noteq> [] \<Longrightarrow> \<not> isspace (last (strip s))"
  unfolding strip_def by (rule rstrip_last)

section \<open>The claims about \<^verbatim>\<open>prompt\<close> and \<^verbatim>\<open>update_cargo_version\<close>\<close>


text \<open>
  C8: \<^verbatim>\<open>prompt\<close> on a line that is empty or white space only raises
  \<^verbatim>\<open>SystemExit\<close> (exit status not 0) and returns nothing; on any other line it returns
  the line without its leading and trailing white space, which is not empty.
\<close>

theorem prompt_rejects_blank_returns_stripped:
  assumes "stdin w = l # ls"
  shows "(list_all isspace l \<longrightarrow>
            prompt message w = (Inl (SystemExit Input_cannot_be_empty), w\<lparr>stdin := ls\<rparr>) \<and>
            exit_status (SystemExit Input_cannot_be_empty) \<noteq> 0) \<and>
         (\<not> list_all isspace l \<longrightarrow>
            prompt message w = (Inr (strip l), w\<lparr>stdin := ls\<rparr>) \<and>
            (\<exists>a b. l = a @ strip l @ b \<and> list_all isspace a \<and> list_all isspace b) \<and>
            strip l \<noteq> [] \<and> \<not> isspace (hd (strip l)) \<and> \<not> isspace (last (strip l)))"
proof (intro conjI impI)
  assume "list_all isspace l"
  then have "strip l = []" by (simp add: strip_Nil_iff)
  then show "prompt message w = (Inl (SystemExit Input_cannot_be_empty), w\<lparr>stdin := ls\<rparr>)"
    using assms by (simp add: prompt_def input_def)
next
  show "exit_status (SystemExit Input_cannot_be_empty) \<noteq> 0" by simp
next
  assume "\<not> list_all isspace l"
  then have n: "strip l \<noteq> []" by (simp add: strip_Nil_iff)
  then show "prompt message w = (Inr (strip l), w\<lparr>stdin := ls\<rparr>)"
    using assms by (simp add: prompt_def input_def)
  show "\<exists>a b. l = a @ strip l @ b \<and> list_all isspace a \<and> list_all isspace b"
    by (rule strip_decomp)
  show "strip l \<noteq> []" by (rule n)
  show "\<not> isspace (hd (strip l))" using n by (rule strip_hd)
  show "\<not> isspace (last (strip l))" using n by (rule strip_last)
qed

lemma strip_example: "strip (py ''  1.2.3 '') = py ''1.2.3''"
  by (simp add: strip_def rstrip_def lstrip_def py_def isspace_def)

theorem prompt_rejects_blank_returns_stripped_witness:
  "prompt (py ''Enter: '') \<lparr>files = Map.empty, stdin = [py ''  1.2.3 '', py ''notes'']\<rparr> =
     (Inr (py ''1.2.3''), \<lparr>files = Map.empty, stdin = [py ''notes'']\<rparr>) \<and>
   prompt (py ''Enter: '') \<lparr>files = Map.empty, stdin = [py ''   '']\<rparr> =
     (Inl (SystemExit Input_cannot_be_empty), \<lparr>files = Map.empty, stdin = []\<rparr>)"
proof -
  have a: "\<not> list_all isspace (py ''  1.2.3 '')" by (simp add: py_def isspace_def)
  have b: "list_all isspace (py ''   '')" by (simp add: py_def isspace_def)
  show ?thesis
    using prompt_rejects_blank_returns_stripped
            [of "\<lparr>files = Map.empty, stdin = [py ''  1.2.3 '', py ''notes'']\<rparr>"
                "py ''  1.2.3 ''" "[py ''notes'']" "py ''Enter: ''"]
          prompt_rejects_blank_returns_stripped
            [of "\<lparr>files = Map.empty, stdin = [py ''   '']\<rparr>" "py ''   ''" "[]" "py ''Enter: ''"]
          a b strip_example
    by simp
qed

lemma read_text_Some: "files w p = Some t \<Longrightarrow> read_text p w = (Inr (universal_newlines t), w)"
  by (simp add: read_text_def)

text \<open>
  C2: when no line of the build manifest matches the version pattern,
  \<^verbatim>\<open>update_cargo_version\<close> raises \<^verbatim>\<open>SystemExit\<close> and the world, so the file too, is as
  it was: nothing is written.
\<close>

theorem update_cargo_version_no_version_line:
  assumes "files w p = Some t"
    and "\<forall>line \<in> set (splitlines (universal_newlines t)). \<not> version_pattern_match line"
  shows "update_cargo_version p version w = (Inl (SystemExit (No_version_field_found p)), w)"
  using assms by (simp add: update_cargo_version_def read_text_Some cargo_loop_eq)



lemma ex_cargo_no_version_lines:
  "splitlines (universal_newlines ex_cargo_no_version) = [py ''[package]'', py ''name = x'']"
  by (simp add: splitlines_def ex_cargo_no_version_def py_def islinebreak_def)



theorem update_cargo_version_no_version_line_witness:
  "update_cargo_version CARGO_TOML (py ''1.2.3'')
     \<lparr>files = [CARGO_TOML \<mapsto> ex_cargo_no_version], stdin = []\<rparr> =
   (Inl (SystemExit (No_version_field_found CARGO_TOML)),
    \<lparr>files = [CARGO_TOML \<mapsto> ex_cargo_no_version], stdin = []\<rparr>)"
proof -
  have "\<forall>line \<in> set (splitlines (universal_newlines ex_cargo_no_version)). \<not> version_pattern_match line"
    unfolding ex_cargo_no_version_lines by (simp add: version_pattern_match_def py_def isspace_def)
  then show ?thesis
    using update_cargo_version_no_version_line
      [of "\<lparr>files = [CARGO_TOML \<mapsto> ex_cargo_no_version], stdin = []\<rparr>" CARGO_TOML
          ex_cargo_no_version "py ''1.2.3''"]
    by simp
qed


section \<open>\<^verbatim>\<open>update_release_body\<close>\<close>

lemma release_loop_eq:
  "release_loop e ls (acc, r) =
     (acc @ map (\<lambda>l. if is_release_line l then release_line e l else l) ls,
      r \<or> (\<exists>l \<in> set ls. is_release_line l))"
  by (induction ls arbitrary: acc r) auto

lemma open_lines_Some:
  "files w p = Some t \<Longrightarrow> open_lines p w = (Inr (file_lines (universal_newlines t)), w)"
  by (simp add: open_lines_def)

lemma length_lstrip: "length line - length (lstrip line) = length (takeWhile isspace line)"
proof -
  have "length line = length (takeWhile isspace line) + length (lstrip line)"
    unfolding lstrip_def by (metis length_append takeWhile_dropWhile_id)
  then show ?thesis by simp
qed

lemma isspace_r: "\<not> isspace 114" by (simp add: isspace_def)

lemma takeWhile_release_line:
  "takeWhile isspace (release_line e line) = replicate (length (takeWhile isspace line)) 32"
proof -
  have "isspace 32" by (simp add: isspace_def)
  then have "takeWhile isspace (replicate n 32 @ 114 # xs) = replicate n 32" for n xs
    by (induction n) (auto simp: isspace_r)
  then show ?thesis
    by (simp add: release_line_def length_lstrip py_def)
qed

lemma spaces_only: "set ws \<subseteq> {32} \<Longrightarrow> ws = replicate (length ws) (32::nat)"
  by (induction ws) auto

lemma release_line_keeps_spaces:
  "set (takeWhile isspace line) \<subseteq> {32} \<Longrightarrow>
     takeWhile isspace (release_line e line) = takeWhile isspace line"
  using spaces_only[of "takeWhile isspace line"] by (simp add: takeWhile_release_line)

lemma update_release_body_found:
  assumes "files w p = Some t" and "lines = file_lines (universal_newlines t)"
    and "\<exists>line \<in> set lines. is_release_line line"
  shows "update_release_body p body w =
     (Inr (), w\<lparr>files := (files w)(p \<mapsto> concat (map (\<lambda>l. if is_release_line l
         then release_line (escape_for_yaml body) l else l) lines))\<rparr>)"
  using assms by (simp add: update_release_body_def open_lines_Some release_loop_eq write_text_def)

lemma update_release_body_not_found:
  assumes "files w p = Some t" and "lines = file_lines (universal_newlines t)"
    and "\<not> (\<exists>line \<in> set lines. is_release_line line)"
  shows "update_release_body p body w = (Inl (SystemExit (Could_not_find_releaseBody p)), w)"
  using assms by (simp add: update_release_body_def open_lines_Some release_loop_eq)

lemma ex_workflow_tab_lines:
  "file_lines (universal_newlines ex_workflow_tab) = [py ''with:'' @ [10], 9 # py ''releaseBody: old'' @ [10]]"
  by (simp add: file_lines_def ex_workflow_tab_def py_def)

lemma ex_workflow_lines:
  "file_lines (universal_newlines ex_workflow) =
     [py ''with:'' @ [10], py ''    releaseBody: old'' @ [10], py ''    draft: true'' @ [10]]"
  by (simp add: file_lines_def ex_workflow_def py_def)

lemma ex_is_release:
  "\<not> is_release_line (py ''with:'' @ [10])"
  "is_release_line (9 # py ''releaseBody: old'' @ [10])"
  "is_release_line (py ''    releaseBody: old'' @ [10])"
  "\<not> is_release_line (py ''    draft: true'' @ [10])"
  by (simp_all add: is_release_line_def lstrip_def py_def isspace_def)

lemma ex_escape: "escape_for_yaml (py ''notes'') = 34 # py ''notes'' @ [34]"
  by (simp add: escape_for_yaml_def encode_basestring_ascii_def escape_char_def py_def)

text \<open>
  C5, as stated, fails: a line indented with a tab is rewritten with a space in its
  place, so its leading indentation is not preserved.
\<close>

theorem update_release_body_tab_counterexample:
  "update_release_body RELEASE_WORKFLOW (py ''notes'')
      \<lparr>files = [RELEASE_WORKFLOW \<mapsto> ex_workflow_tab], stdin = []\<rparr> =
     (Inr (), \<lparr>files = [RELEASE_WORKFLOW \<mapsto>
        py ''with:'' @ [10] @ [32] @ py ''releaseBody: '' @ [34] @ py ''notes'' @ [34] @ [10]],
        stdin = []\<rparr>) \<and>
   takeWhile isspace (9 # py ''releaseBody: old'' @ [10]) = [9] \<and>
   takeWhile isspace ([32] @ py ''releaseBody: '' @ [34] @ py ''notes'' @ [34] @ [10]) = [32]"
proof -
  have "\<exists>line \<in> set (file_lines (universal_newlines ex_workflow_tab)). is_release_line line"
    unfolding ex_workflow_tab_lines using ex_is_release(2) by simp
  from update_release_body_found[OF _ refl this,
      of "\<lparr>files = [RELEASE_WORKFLOW \<mapsto> ex_workflow_tab], stdin = []\<rparr>" RELEASE_WORKFLOW "py ''notes''"]
  have "update_release_body RELEASE_WORKFLOW (py ''notes'')
      \<lparr>files = [RELEASE_WORKFLOW \<mapsto> ex_workflow_tab], stdin = []\<rparr> =
     (Inr (), \<lparr>files = [RELEASE_WORKFLOW \<mapsto>
        py ''with:'' @ [10] @ release_line (escape_for_yaml (py ''notes'')) (9 # py ''releaseBody: old'' @ [10])],
        stdin = []\<rparr>)"
    unfolding ex_workflow_tab_lines by (simp add: ex_is_release)
  moreover have "release_line (escape_for_yaml (py ''notes'')) (9 # py ''releaseBody: old'' @ [10]) =
      [32] @ py ''releaseBody: '' @ [34] @ py ''notes'' @ [34] @ [10]"
    unfolding ex_escape by (simp add: release_line_def lstrip_def isspace_def py_def)
  moreover have "takeWhile isspace (9 # py ''releaseBody: old'' @ [10]) = [9]"
    by (simp add: isspace_def py_def)
  moreover have "takeWhile isspace ([32] @ py ''releaseBody: '' @ [34] @ py ''notes'' @ [34] @ [10]) = [32]"
    by (simp add: isspace_def py_def)
  ultimately show ?thesis by simp
qed

text \<open>
  C5, amended: every line that begins, after its leading white space, with
  \<^verbatim>\<open>releaseBody:\<close> is replaced by as many spaces as it had leading white-space
  characters, the key, the JSON encoding of the text and a line feed (so an indentation
  made of spaces is kept as it is); each other line is kept; and when no line has the
  key, \<^verbatim>\<open>SystemExit\<close> is raised and nothing is written.
\<close>

theorem update_release_body_replaces_key_lines:
  assumes "files w p = Some t" and "lines = file_lines (universal_newlines t)"
  shows "if \<exists>line \<in> set lines. is_release_line line
         then \<exists>new_lines.
           update_release_body p body w =
             (Inr (), w\<lparr>files := (files w)(p \<mapsto> concat new_lines)\<rparr>) \<and>
           length new_lines = length lines \<and>
           (\<forall>i < length lines.
              (is_release_line (lines ! i) \<longrightarrow>
                 new_lines ! i =
                   replicate (length (takeWhile isspace (lines ! i))) 32 @
                   py ''releaseBody: '' @ escape_for_yaml body @ [10] \<and>
                 (set (takeWhile isspace (lines ! i)) \<subseteq> {32} \<longrightarrow>
                    takeWhile isspace (new_lines ! i) = takeWhile isspace (lines ! i))) \<and>
              (\<not> is_release_line (lines ! i) \<longrightarrow> new_lines ! i = lines ! i))
         else update_release_body p body w = (Inl (SystemExit (Could_not_find_releaseBody p)), w)"
proof (cases "\<exists>line \<in> set lines. is_release_line line")
  case True
  let ?f = "\<lambda>l. if is_release_line l then release_line (escape_for_yaml body) l else l"
  have 1: "update_release_body p body w =
      (Inr (), w\<lparr>files := (files w)(p \<mapsto> concat (map ?f lines))\<rparr>)"
    using assms True by (rule update_release_body_found)
  have 2: "release_line (escape_for_yaml body) l =
      replicate (length (takeWhile isspace l)) 32 @ py ''releaseBody: '' @ escape_for_yaml body @ [10]" for l
    by (simp add: release_line_def length_lstrip)
  have 3: "\<forall>i < length lines.
      (is_release_line (lines ! i) \<longrightarrow>
         map ?f lines ! i =
           replicate (length (takeWhile isspace (lines ! i))) 32 @
           py ''releaseBody: '' @ escape_for_yaml body @ [10] \<and>
         (set (takeWhile isspace (lines ! i)) \<subseteq> {32} \<longrightarrow>
            takeWhile isspace (map ?f lines ! i) = takeWhile isspace (lines ! i))) \<and>
      (\<not> is_release_line (lines ! i) \<longrightarrow> map ?f lines ! i = lines ! i)"
  proof (intro allI impI conjI)
    fix i assume "is_release_line (lines ! i)"
    then show "map ?f lines ! i =
           replicate (length (takeWhile isspace (lines ! i))) 32 @
           py ''releaseBody: '' @ escape_for_yaml body @ [10]" if "i < length lines"
      using that 2 by simp
    show "takeWhile isspace (map ?f lines ! i) = takeWhile isspace (lines ! i)"
      if "i < length lines" "set (takeWhile isspace (lines ! i)) \<subseteq> {32}"
      using that \<open>is_release_line (lines ! i)\<close>
        release_line_keeps_spaces[of "lines ! i" "escape_for_yaml body"] by simp
  next
    fix i assume "i < length lines" "\<not> is_release_line (lines ! i)"
    then show "map ?f lines ! i = lines ! i" by simp
  qed
  have "length (map ?f lines) = length lines" by simp
  with 1 3 have "\<exists>new_lines.
           update_release_body p body w =
             (Inr (), w\<lparr>files := (files w)(p \<mapsto> concat new_lines)\<rparr>) \<and>
           length new_lines = length lines \<and>
           (\<forall>i < length lines.
              (is_release_line (lines ! i) \<longrightarrow>
                 new_lines ! i =
                   replicate (length (takeWhile isspace (lines ! i))) 32 @
                   py ''releaseBody: '' @ escape_for_yaml body @ [10] \<and>
                 (set (takeWhile isspace (lines ! i)) \<subseteq> {32} \<longrightarrow>
                    takeWhile isspace (new_lines ! i) = takeWhile isspace (lines ! i))) \<and>
              (\<not> is_release_line (lines ! i) \<longrightarrow> new_lines ! i = lines ! i))"
    by blast
  with True show ?thesis by simp
next
  case False
  then show ?thesis using update_release_body_not_found[OF assms] by simp
qed


theorem update_release_body_replaces_key_lines_witness:
  "\<exists>new_lines.
     update_release_body RELEASE_WORKFLOW (py ''notes'')
        \<lparr>files = [RELEASE_WORKFLOW \<mapsto> ex_workflow], stdin = []\<rparr> =
       (Inr (), \<lparr>files = [RELEASE_WORKFLOW \<mapsto> concat new_lines], stdin = []\<rparr>) \<and>
     length new_lines = 3 \<and>
     new_lines ! 0 = py ''with:'' @ [10] \<and>
     new_lines ! 1 = py ''    releaseBody: '' @ [34] @ py ''notes'' @ [34] @ [10] \<and>
     takeWhile isspace (new_lines ! 1) = py ''    '' \<and>
     new_lines ! 2 = py ''    draft: true'' @ [10]"
proof -
  define lines where "lines = file_lines (universal_newlines ex_workflow)"
  have l: "lines = [py ''with:'' @ [10], py ''    releaseBody: old'' @ [10], py ''    draft: true'' @ [10]]"
    unfolding lines_def by (rule ex_workflow_lines)
  have e: "\<exists>line \<in> set lines. is_release_line line"
    unfolding l using ex_is_release(3) by simp
  have r: "\<not> is_release_line (lines ! 0)" "is_release_line (lines ! 1)" "\<not> is_release_line (lines ! 2)"
    unfolding l using ex_is_release by simp_all
  have t: "takeWhile isspace (lines ! 1) = py ''    ''"
    unfolding l by (simp add: py_def isspace_def)
  have n: "length lines = 3" unfolding l by simp
  from update_release_body_replaces_key_lines
         [of "\<lparr>files = [RELEASE_WORKFLOW \<mapsto> ex_workflow], stdin = []\<rparr>" RELEASE_WORKFLOW
             ex_workflow lines "py ''notes''"] e lines_def
  obtain new_lines where
    u: "update_release_body RELEASE_WORKFLOW (py ''notes'')
          \<lparr>files = [RELEASE_WORKFLOW \<mapsto> ex_workflow], stdin = []\<rparr> =
        (Inr (), \<lparr>files = [RELEASE_WORKFLOW \<mapsto> concat new_lines], stdin = []\<rparr>)" and
    len: "length new_lines = length lines" and
    a: "\<forall>i < length lines.
              (is_release_line (lines ! i) \<longrightarrow>
                 new_lines ! i =
                   replicate (length (takeWhile isspace (lines ! i))) 32 @
                   py ''releaseBody: '' @ escape_for_yaml (py ''notes'') @ [10] \<and>
                 (set (takeWhile isspace (lines ! i)) \<subseteq> {32} \<longrightarrow>
                    takeWhile isspace (new_lines ! i) = takeWhile isspace (lines ! i))) \<and>
              (\<not> is_release_line (lines ! i) \<longrightarrow> new_lines ! i = lines ! i)"
    by auto
  have lt: "0 < length lines" "1 < length lines" "2 < length lines" using n by simp_all
  have 0: "new_lines ! 0 = lines ! 0" using a[rule_format, OF lt(1)] r(1) by simp
  have 2: "new_lines ! 2 = lines ! 2" using a[rule_format, OF lt(3)] r(3) by simp
  have 1: "new_lines ! 1 = replicate (length (takeWhile isspace (lines ! 1))) 32 @
                   py ''releaseBody: '' @ escape_for_yaml (py ''notes'') @ [10]"
    and i1: "set (takeWhile isspace (lines ! 1)) \<subseteq> {32} \<longrightarrow>
                    takeWhile isspace (new_lines ! 1) = takeWhile isspace (lines ! 1)"
    using a[rule_format, OF lt(2)] r(2) by blast+
  have 3: "new_lines ! 1 = py ''    releaseBody: '' @ [34] @ py ''notes'' @ [34] @ [10]"
    unfolding 1 t ex_escape by (simp add: py_def)
  have 4: "takeWhile isspace (new_lines ! 1) = py ''    ''"
    using i1 unfolding t by (simp add: py_def)
  show ?thesis
    using u len n 0 2 3 4 unfolding l by (intro exI[of _ new_lines]) simp
qed

section \<open>The test server\<close>

lemma infix_of_iff: "infix_of p s \<longleftrightarrow> (\<exists>a b. s = a @ p @ b)"
proof (induction s)
  case Nil
  then show ?case by auto
next
  case (Cons c cs)
  show ?case
  proof
    assume "infix_of p (c # cs)"
    then consider "take (length p) (c # cs) = p" | "infix_of p cs" by auto
    then show "\<exists>a b. c # cs = a @ p @ b"
    proof cases
      case 1
      then have "c # cs = [] @ p @ drop (length p) (c # cs)"
        by (metis append_Nil append_take_drop_id)
      then show ?thesis by blast
    next
      case 2
      then obtain a b where "cs = a @ p @ b" using Cons.IH by blast
      then have "c # cs = (c # a) @ p @ b" by simp
      then show ?thesis by blast
    qed
  next
    assume "\<exists>a b. c # cs = a @ p @ b"
    then obtain a b where e: "c # cs = a @ p @ b" by blast
    show "infix_of p (c # cs)"
    proof (cases a)
      case Nil
      then have "take (length p) (c # cs) = p" using e by simp
      then show ?thesis by simp
    next
      case (Cons x xs)
      then have "cs = xs @ p @ b" using e by simp
      then show ?thesis using Cons.IH by auto
    qed
  qed
qed

lemma send_headers_version: "request_version (send_headers kvs h) = request_version h"
  by (induction kvs h rule: send_headers.induct) (auto simp: send_header_def)

lemma send_headers_wfile: "wfile (send_headers kvs h) = wfile h"
  by (induction kvs h rule: send_headers.induct) (auto simp: send_header_def)

lemma send_headers_09: "request_version h = ''HTTP/0.9'' \<Longrightarrow> send_headers kvs h = h"
  by (induction kvs h rule: send_headers.induct) (auto simp: send_header_def)

lemma end_headers_wfile:
  "request_version h \<noteq> ''HTTP/0.9'' \<Longrightarrow>
     wfile (end_headers h) =
       wfile h @ concat (headers_buffer h) @ cache_control_line @
       ''Pragma: no-cache'' @ CRLF @ ''Expires: 0'' @ CRLF @ CRLF"
  by (simp add: end_headers_def base_end_headers_def send_header_def flush_headers_def
      cache_control_line_def)

text \<open>
  C4, as stated, fails: a request line without a version is served as HTTP/0.9, for
  which the base class buffers and writes no header at all, so the response is the body
  alone.
\<close>

theorem respond_http09_counterexample:
  "wfile (respond ''HTTP/1.0 200 OK'' ''SimpleHTTP/0.6'' ''Tue, 03 Nov 2026 10:00:00 GMT''
            [(''Content-type'', ''text/plain''), (''Content-Length'', ''2'')] ''ok''
            \<lparr>request_version = ''HTTP/0.9'', headers_buffer = [], wfile = []\<rparr>) = ''ok'' \<and>
   \<not> infix_of cache_control_line ''ok''"
  by (simp add: respond_def send_response_def send_response_only_def send_header_def
      end_headers_def base_end_headers_def cache_control_line_def CRLF_def)

text \<open>
  C4, amended: for every request that carries an HTTP version (so that
  \<^verbatim>\<open>request_version\<close> is not \<^verbatim>\<open>HTTP/0.9\<close>), whatever status, headers and body the
  inherited handler answers with, the bytes written hold the header line
  \<^verbatim>\<open>Cache-Control: no-cache, no-store, must-revalidate\<close>, in the header block that
  the empty line closes before the body.
\<close>

theorem respond_sends_cache_control:
  assumes "request_version h \<noteq> ''HTTP/0.9''"
  shows "(\<exists>before.
            wfile (respond status_line server date hdrs body h) =
              wfile h @ before @ cache_control_line @
              ''Pragma: no-cache'' @ CRLF @ ''Expires: 0'' @ CRLF @ CRLF @ body) \<and>
         infix_of cache_control_line (wfile (respond status_line server date hdrs body h))"
proof -
  let ?h2 = "send_headers hdrs (send_response status_line server date h)"
  have v: "request_version ?h2 \<noteq> ''HTTP/0.9''"
    using assms by (simp add: send_headers_version send_response_def send_header_def
        send_response_only_def)
  have w: "wfile ?h2 = wfile h"
    using assms by (simp add: send_headers_wfile send_response_def send_header_def
        send_response_only_def)
  have e: "wfile (respond status_line server date hdrs body h) =
      wfile h @ concat (headers_buffer ?h2) @ cache_control_line @
      ''Pragma: no-cache'' @ CRLF @ ''Expires: 0'' @ CRLF @ CRLF @ body"
    using end_headers_wfile[OF v] w by (simp add: respond_def Let_def)
  then have "\<exists>before.
            wfile (respond status_line server date hdrs body h) =
              wfile h @ before @ cache_control_line @
              ''Pragma: no-cache'' @ CRLF @ ''Expires: 0'' @ CRLF @ CRLF @ body"
    by blast
  moreover have "infix_of cache_control_line (wfile (respond status_line server date hdrs body h))"
    unfolding infix_of_iff e
    by (metis append.assoc)
  ultimately show ?thesis by blast
qed

theorem respond_sends_cache_control_witness:
  "infix_of cache_control_line
     (wfile (respond ''HTTP/1.0 200 OK'' ''SimpleHTTP/0.6'' ''Tue, 03 Nov 2026 10:00:00 GMT''
            [(''Content-type'', ''text/plain''), (''Content-Length'', ''2'')] ''ok''
            \<lparr>request_version = ''HTTP/1.1'', headers_buffer = [], wfile = []\<rparr>))"
proof -
  have "request_version \<lparr>request_version = ''HTTP/1.1'', headers_buffer = [], wfile = []\<rparr> \<noteq> ''HTTP/0.9''"
    by simp
  from respond_sends_cache_control[OF this] show ?thesis by blast
qed

section \<open>The JSON encoding of a text and its decoding\<close>

lemma hex_val_hex_digit: "d < 16 \<Longrightarrow> hex_val (hex_digit d) = Some d"
  by (auto simp: hex_val_def hex_digit_def)

lemma hex4_sum:
  assumes "n < 65536"
  shows "4096 * (n div 4096 mod 16) + 256 * (n div 256 mod 16) + 16 * (n div 16 mod 16) +
           n mod 16 = (n::nat)"
proof -
  have 1: "n = 16 * (n div 16) + n mod 16" by simp
  have "n div 16 div 16 = n div 256" by (simp add: div_mult2_eq)
  then have 2: "n div 16 = 16 * (n div 256) + n div 16 mod 16"
    using div_mult_mod_eq[of "n div 16" 16] by simp
  have "n div 256 div 16 = n div 4096" by (simp add: div_mult2_eq)
  then have 3: "n div 256 = 16 * (n div 4096) + n div 256 mod 16"
    using div_mult_mod_eq[of "n div 256" 16] by simp
  have "n div 4096 < 16" using assms by simp
  then have 4: "n div 4096 mod 16 = n div 4096" by simp
  show ?thesis unfolding 4 using 1 2 3 by linarith
qed

lemma u_escape_decode:
  assumes "n < 65536"
  shows "\<exists>a b c d. u_escape n = [92, 117, a, b, c, d] \<and> decode_hex4 a b c d = Some n"
proof -
  let ?a = "n div 4096 mod 16" and ?b = "n div 256 mod 16" and ?c = "n div 16 mod 16"
    and ?d = "n mod 16"
  have h: "hex_val (hex_digit ?a) = Some ?a" "hex_val (hex_digit ?b) = Some ?b"
    "hex_val (hex_digit ?c) = Some ?c" "hex_val (hex_digit ?d) = Some ?d"
    by (rule hex_val_hex_digit, simp)+
  have "decode_hex4 (hex_digit ?a) (hex_digit ?b) (hex_digit ?c) (hex_digit ?d) = Some n"
    unfolding decode_hex4_def h by (simp only: prod.case option.case hex4_sum[OF assms])
  then show ?thesis unfolding u_escape_def by blast
qed

lemma u_escape_nonempty: "u_escape n \<noteq> []"
  by (simp add: u_escape_def)

lemma scanstring_end: "string_step s = Str_end rest \<Longrightarrow> scanstring s = Some ([], rest)"
  by (subst scanstring.simps) simp

lemma scanstring_char:
  "string_step s = Str_char c rest \<Longrightarrow> scanstring s = str_cons c (scanstring rest)"
  by (subst scanstring.simps) simp

lemma scanstring_error: "string_step s = Str_error \<Longrightarrow> scanstring s = None"
  by (subst scanstring.simps) simp

lemma string_step_u_escape:
  assumes "n < 65536" and "rest \<noteq> []"
  shows "string_step (u_escape n @ rest) =
     (if is_high_surrogate n then second_surrogate n rest else Str_char n rest)"
proof -
  obtain a b c d where u: "u_escape n = [92, 117, a, b, c, d]" "decode_hex4 a b c d = Some n"
    using u_escape_decode[OF assms(1)] by blast
  obtain x r where r: "rest = x # r" using assms(2) by (cases rest) auto
  show ?thesis unfolding u r using u(2) by (simp add: string_step_def)
qed

lemma second_surrogate_not_escape:
  "s = [] \<or> hd s \<noteq> 92 \<Longrightarrow> second_surrogate uni s = Str_char uni s"
  by (cases s) (auto simp: second_surrogate_def)

lemma second_surrogate_short_escape:
  "e \<noteq> 117 \<Longrightarrow> second_surrogate uni (92 # e # s) = Str_char uni (92 # e # s)"
  by (simp add: second_surrogate_def)

lemma second_surrogate_u_escape:
  assumes "n < 65536"
  shows "second_surrogate uni (u_escape n @ rest) =
     (if is_low_surrogate n \<and> rest \<noteq> [] then Str_char (join_surrogates uni n) rest
      else Str_char uni (u_escape n @ rest))"
proof -
  obtain a b c d where u: "u_escape n = [92, 117, a, b, c, d]" "decode_hex4 a b c d = Some n"
    using u_escape_decode[OF assms(1)] by blast
  show ?thesis
  proof (cases rest)
    case Nil
    then show ?thesis unfolding u by (simp add: second_surrogate_def)
  next
    case (Cons x r)
    then show ?thesis unfolding u using u(2) by (simp add: second_surrogate_def)
  qed
qed

text \<open>A code point from \<open>0x10000\<close> on and its surrogate pair.\<close>

lemma surrogate_pair:
  assumes "65536 \<le> c" and "c < 1114112"
  shows "is_high_surrogate (55296 + (c - 65536) div 1024 mod 1024)"
    and "is_low_surrogate (56320 + (c - 65536) mod 1024)"
    and "join_surrogates (55296 + (c - 65536) div 1024 mod 1024) (56320 + (c - 65536) mod 1024) = c"
proof -
  let ?n = "c - 65536"
  have "?n < 1048576" using assms by simp
  then have d: "?n div 1024 < 1024" by simp
  then have m: "?n div 1024 mod 1024 = ?n div 1024" by simp
  have r: "?n mod 1024 < 1024" by simp
  show "is_high_surrogate (55296 + ?n div 1024 mod 1024)"
    unfolding m is_high_surrogate_def using d by simp
  show "is_low_surrogate (56320 + ?n mod 1024)"
    unfolding is_low_surrogate_def using r by simp
  have "?n div 1024 * 1024 + ?n mod 1024 = ?n" by simp
  then show "join_surrogates (55296 + ?n div 1024 mod 1024) (56320 + ?n mod 1024) = c"
    unfolding m join_surrogates_def using assms(1) by simp
qed

lemma is_high_not_low: "is_high_surrogate c \<Longrightarrow> \<not> is_low_surrogate c"
  by (simp add: is_high_surrogate_def is_low_surrogate_def)

lemma is_high_lt: "is_high_surrogate c \<Longrightarrow> c < 65536"
  by (simp add: is_high_surrogate_def)

lemma escape_char_cases:
  "(\<exists>e. escape_char c = [92, e] \<and> e \<noteq> 117 \<and> backslash e = Some c) \<or>
   (escape_char c = [c] \<and> c \<noteq> 92 \<and> c \<noteq> 34 \<and> 32 \<le> c) \<or>
   (escape_char c = u_escape c \<and> c < 65536) \<or>
   (escape_char c = u_escape (55296 + (c - 65536) div 1024 mod 1024) @
                    u_escape (56320 + (c - 65536) mod 1024) \<and> 65536 \<le> c)"
  by (simp add: escape_char_def Let_def backslash_def)

text \<open>After a lone high surrogate, the encoding of a character that is no low surrogate
  is left for the next round.\<close>

lemma second_surrogate_escape_char:
  assumes "c < 1114112" and "\<not> is_low_surrogate c"
  shows "second_surrogate uni (escape_char c @ rest) = Str_char uni (escape_char c @ rest)"
proof -
  consider (short) e where "escape_char c = [92, e]" "e \<noteq> 117"
    | (plain) "escape_char c = [c]" "c \<noteq> 92"
    | (u) "escape_char c = u_escape c" "c < 65536"
    | (pair) "escape_char c = u_escape (55296 + (c - 65536) div 1024 mod 1024) @
                              u_escape (56320 + (c - 65536) mod 1024)" "65536 \<le> c"
    using escape_char_cases[of c] by blast
  then show ?thesis
  proof cases
    case short
    then show ?thesis by (simp add: second_surrogate_short_escape)
  next
    case plain
    then show ?thesis by (simp add: second_surrogate_not_escape)
  next
    case u
    then show ?thesis using assms(2) by (simp add: second_surrogate_u_escape)
  next
    case pair
    let ?hi = "55296 + (c - 65536) div 1024 mod 1024"
    have "is_high_surrogate ?hi" using pair(2) assms(1) by (rule surrogate_pair(1))
    then have "\<not> is_low_surrogate ?hi" "?hi < 65536"
      by (auto dest: is_high_not_low is_high_lt)
    then show ?thesis unfolding pair(1) append_assoc by (simp add: second_surrogate_u_escape)
  qed
qed

text \<open>One round of the decoder reads the encoding of one character back.\<close>

lemma string_step_escape_char:
  assumes "c < 1114112" and "rest \<noteq> []"
    and "is_high_surrogate c \<Longrightarrow> second_surrogate c rest = Str_char c rest"
  shows "string_step (escape_char c @ rest) = Str_char c rest"
proof -
  consider (short) e where "escape_char c = [92, e]" "e \<noteq> 117" "backslash e = Some c"
    | (plain) "escape_char c = [c]" "c \<noteq> 92" "c \<noteq> 34" "32 \<le> c"
    | (u) "escape_char c = u_escape c" "c < 65536"
    | (pair) "escape_char c = u_escape (55296 + (c - 65536) div 1024 mod 1024) @
                              u_escape (56320 + (c - 65536) mod 1024)" "65536 \<le> c"
    using escape_char_cases[of c] by blast
  then show ?thesis
  proof cases
    case short
    then show ?thesis by (simp add: string_step_def)
  next
    case plain
    then show ?thesis by (simp add: string_step_def)
  next
    case u
    then show ?thesis using assms(2,3) by (simp add: string_step_u_escape)
  next
    case pair
    let ?hi = "55296 + (c - 65536) div 1024 mod 1024"
    let ?lo = "56320 + (c - 65536) mod 1024"
    note sp = surrogate_pair[OF pair(2) assms(1)]
    have hi: "?hi < 65536" using sp(1) by (rule is_high_lt)
    have lo: "?lo < 65536" by simp
    have "string_step (u_escape ?hi @ (u_escape ?lo @ rest)) = second_surrogate ?hi (u_escape ?lo @ rest)"
      using sp(1) hi by (simp add: string_step_u_escape u_escape_nonempty)
    also have "\<dots> = Str_char (join_surrogates ?hi ?lo) rest"
      using second_surrogate_u_escape[OF lo, of ?hi rest] sp(2) assms(2) by simp
    finally show ?thesis unfolding pair(1) append_assoc sp(3) .
  qed
qed

lemma str_ok_Cons: "str_ok (c # s) \<Longrightarrow> c < 1114112 \<and> str_ok s"
  by (cases s) auto

lemma str_ok_pair: "str_ok (c # d # s) \<Longrightarrow> \<not> (is_high_surrogate c \<and> is_low_surrogate d)"
  by simp

lemma scanstring_escaped:
  "str_ok s \<Longrightarrow> scanstring (concat (map escape_char s) @ 34 # tail) = Some (s, tail)"
proof (induction s)
  case Nil
  show ?case by (simp add: scanstring_end string_step_def)
next
  case (Cons c s)
  let ?rest = "concat (map escape_char s) @ 34 # tail"
  have c: "c < 1114112" and s: "str_ok s" using Cons.prems by (auto dest: str_ok_Cons)
  have "second_surrogate c ?rest = Str_char c ?rest" if h: "is_high_surrogate c"
  proof (cases s)
    case Nil
    then show ?thesis by (simp add: second_surrogate_not_escape)
  next
    case (Cons d s')
    then have "\<not> is_low_surrogate d" "d < 1114112"
      using Cons.prems h s by (auto dest: str_ok_Cons)
    then show ?thesis unfolding Cons
      using second_surrogate_escape_char[of d c "concat (map escape_char s') @ 34 # tail"]
      by simp
  qed
  then have "string_step (escape_char c @ ?rest) = Str_char c ?rest"
    using c by (intro string_step_escape_char) auto
  then have "scanstring (escape_char c @ ?rest) = str_cons c (scanstring ?rest)"
    by (rule scanstring_char)
  then show ?case using Cons.IH[OF s] by (simp add: str_cons_def)
qed

text \<open>The encoding is made of printable ASCII characters only, whatever the text.\<close>

lemma hex_digit_printable: "d < 16 \<Longrightarrow> 32 \<le> hex_digit d \<and> hex_digit d \<le> 126"
  by (simp add: hex_digit_def)

lemma u_escape_printable: "x \<in> set (u_escape n) \<Longrightarrow> 32 \<le> x \<and> x \<le> 126"
  unfolding u_escape_def using hex_digit_printable[of "n div 4096 mod 16"]
    hex_digit_printable[of "n div 256 mod 16"] hex_digit_printable[of "n div 16 mod 16"]
    hex_digit_printable[of "n mod 16"]
  by auto

lemma escape_char_printable: "x \<in> set (escape_char c) \<Longrightarrow> 32 \<le> x \<and> x \<le> 126"
  unfolding escape_char_def Let_def
  by (auto split: if_splits dest: u_escape_printable)

lemma encode_basestring_ascii_printable:
  "x \<in> set (encode_basestring_ascii s) \<Longrightarrow> 32 \<le> x \<and> x \<le> 126"
  unfolding encode_basestring_ascii_def by (auto dest: escape_char_printable)

lemma json_loads_encoded:
  assumes "str_ok s"
  shows "json_loads F (encode_basestring_ascii s) = Inr (JStr s)"
proof -
  let ?t = "encode_basestring_ascii s"
  have t: "?t = 34 # concat (map escape_char s) @ 34 # []"
    by (simp add: encode_basestring_ascii_def)
  have "scanstring (concat (map escape_char s) @ 34 # []) = Some (s, [])"
    using assms by (rule scanstring_escaped)
  then have "scan_once F (Suc (length ?t)) ?t = Some (JStr s, [])"
    unfolding t by simp
  moreover have "skip_ws ?t = ?t" unfolding t by (simp add: skip_ws_def is_json_ws_def)
  moreover have "\<not> startswith ?t [65279]" unfolding t by simp
  ultimately show ?thesis by (simp add: json_loads_def skip_ws_def)
qed

lemma printable_no_linebreak: "32 \<le> x \<Longrightarrow> x \<le> 126 \<Longrightarrow> \<not> islinebreak x"
  by (simp add: islinebreak_def)

lemma release_line_single:
  "\<exists>content. release_line (escape_for_yaml body) line = content @ [10] \<and> 10 \<notin> set content"
proof -
  let ?c = "replicate (length line - length (lstrip line)) 32 @ py ''releaseBody: '' @
            escape_for_yaml body"
  have "10 \<notin> set (escape_for_yaml body)"
    unfolding escape_for_yaml_def using encode_basestring_ascii_printable[of 10 body] by auto
  then have "10 \<notin> set ?c" by (auto simp: py_def)
  moreover have "release_line (escape_for_yaml body) line = ?c @ [10]"
    by (simp add: release_line_def)
  ultimately show ?thesis by blast
qed

text \<open>
  C3: for a workflow file with a \<^verbatim>\<open>releaseBody:\<close> line and any operator text,
  \<^verbatim>\<open>update_release_body\<close> writes, on each such line, the key followed by the JSON
  encoding of the text; the encoding is made of printable ASCII characters, so the
  line holds no line break but the line feed that ends it; and \<^verbatim>\<open>json.loads\<close> of the
  encoding is the text itself.
\<close>

theorem update_release_body_round_trip:
  assumes "str_ok body" and "files w p = Some t"
    and "lines = file_lines (universal_newlines t)"
    and "\<exists>line \<in> set lines. is_release_line line"
  shows "\<exists>new_lines.
           update_release_body p body w =
             (Inr (), w\<lparr>files := (files w)(p \<mapsto> concat new_lines)\<rparr>) \<and>
           length new_lines = length lines \<and>
           (\<forall>i < length lines. is_release_line (lines ! i) \<longrightarrow>
              (\<exists>indent content.
                 new_lines ! i = content @ [10] \<and> 10 \<notin> set content \<and>
                 content = indent @ py ''releaseBody: '' @ escape_for_yaml body)) \<and>
           (\<forall>x \<in> set (escape_for_yaml body). 32 \<le> x \<and> x \<le> 126 \<and> \<not> islinebreak x) \<and>
           json_loads F (escape_for_yaml body) = Inr (JStr body)"
proof -
  let ?f = "\<lambda>l. if is_release_line l then release_line (escape_for_yaml body) l else l"
  have 1: "update_release_body p body w =
      (Inr (), w\<lparr>files := (files w)(p \<mapsto> concat (map ?f lines))\<rparr>)"
    using assms(2-4) by (rule update_release_body_found)
  have p: "\<forall>x \<in> set (escape_for_yaml body). 32 \<le> x \<and> x \<le> 126 \<and> \<not> islinebreak x"
    unfolding escape_for_yaml_def
    using encode_basestring_ascii_printable[of _ body] printable_no_linebreak by auto
  have n: "10 \<notin> set (escape_for_yaml body)"
    unfolding escape_for_yaml_def using encode_basestring_ascii_printable[of 10 body] by auto
  have 2: "\<forall>i < length lines. is_release_line (lines ! i) \<longrightarrow>
      (\<exists>indent content.
         map ?f lines ! i = content @ [10] \<and> 10 \<notin> set content \<and>
         content = indent @ py ''releaseBody: '' @ escape_for_yaml body)"
  proof (intro allI impI)
    fix i assume i: "i < length lines" "is_release_line (lines ! i)"
    let ?indent = "replicate (length (lines ! i) - length (lstrip (lines ! i))) 32"
    let ?c = "?indent @ py ''releaseBody: '' @ escape_for_yaml body"
    have a: "map ?f lines ! i = ?c @ [10]" using i by (simp add: release_line_def)
    have "10 \<notin> set (py ''releaseBody: '')" by (simp add: py_def)
    then have b: "10 \<notin> set ?c" using n by simp
    show "\<exists>indent content.
         map ?f lines ! i = content @ [10] \<and> 10 \<notin> set content \<and>
         content = indent @ py ''releaseBody: '' @ escape_for_yaml body"
      by (rule exI[of _ ?indent], rule exI[of _ ?c]) (simp only: a b simp_thms)
  qed
  have 3: "json_loads F (escape_for_yaml body) = Inr (JStr body)"
    unfolding escape_for_yaml_def using assms(1) by (rule json_loads_encoded)
  have 4: "length (map ?f lines) = length lines" by simp
  show ?thesis by (rule exI[of _ "map ?f lines"]) (intro conjI 1 2 p 3 4)
qed

lemma ex_body_ok: "str_ok ex_body"
  by (simp add: ex_body_def py_def is_high_surrogate_def)

lemma ex_body_escaped:
  "escape_for_yaml ex_body =
     [34] @ py ''Fixes '' @ [92, 34] @ py ''login'' @ [92, 34] @ [92, 110] @ py ''and more'' @ [34]"
  by (simp add: ex_body_def escape_for_yaml_def encode_basestring_ascii_def escape_char_def py_def)

theorem update_release_body_round_trip_witness:
  "json_loads one_float (escape_for_yaml ex_body) = Inr (JStr ex_body) \<and>
   escape_for_yaml ex_body =
     [34] @ py ''Fixes '' @ [92, 34] @ py ''login'' @ [92, 34] @ [92, 110] @ py ''and more'' @ [34] \<and>
   (\<exists>new_lines.
      update_release_body RELEASE_WORKFLOW ex_body
         \<lparr>files = [RELEASE_WORKFLOW \<mapsto> ex_workflow], stdin = []\<rparr> =
        (Inr (), \<lparr>files = [RELEASE_WORKFLOW \<mapsto> concat new_lines], stdin = []\<rparr>) \<and>
      length new_lines = 3)"
proof -
  define lines where "lines = file_lines (universal_newlines ex_workflow)"
  have l: "lines = [py ''with:'' @ [10], py ''    releaseBody: old'' @ [10], py ''    draft: true'' @ [10]]"
    unfolding lines_def by (rule ex_workflow_lines)
  have e: "\<exists>line \<in> set lines. is_release_line line"
    unfolding l using ex_is_release(3) by simp
  have n: "length lines = 3" unfolding l by simp
  from update_release_body_round_trip
         [OF ex_body_ok, of "\<lparr>files = [RELEASE_WORKFLOW \<mapsto> ex_workflow], stdin = []\<rparr>"
            RELEASE_WORKFLOW ex_workflow lines one_float] e lines_def
  obtain new_lines where
    "update_release_body RELEASE_WORKFLOW ex_body
          \<lparr>files = [RELEASE_WORKFLOW \<mapsto> ex_workflow], stdin = []\<rparr> =
        (Inr (), \<lparr>files = [RELEASE_WORKFLOW \<mapsto> concat new_lines], stdin = []\<rparr>)"
    "length new_lines = length lines"
    "json_loads one_float (escape_for_yaml ex_body) = Inr (JStr ex_body)"
    by auto
  then show ?thesis using n ex_body_escaped by auto
qed

section \<open>Numbers: written and read back\<close>

lemma tw_nil:
  "rest = [] \<or> \<not> P (hd rest) \<Longrightarrow> takeWhile P rest = [] \<and> dropWhile P rest = rest"
  by (cases rest) auto

lemma tw_ext:
  assumes "dropWhile P ds \<noteq> [] \<or> rest = [] \<or> \<not> P (hd rest)"
  shows "takeWhile P (ds @ rest) = takeWhile P ds \<and>
         dropWhile P (ds @ rest) = dropWhile P ds @ rest"
  using assms
proof (induction ds)
  case Nil
  then show ?case using tw_nil[of rest P] by simp
next
  case (Cons a ds)
  then show ?case by (cases "P a") auto
qed

lemma delimited_not_digit: "delimited rest \<Longrightarrow> rest = [] \<or> \<not> isdigit (hd rest)"
  by (auto simp: delimited_def isdigit_def)

lemma digits_ext:
  assumes "delimited rest"
  shows "takeWhile isdigit (ds @ rest) = takeWhile isdigit ds"
    and "dropWhile isdigit (ds @ rest) = dropWhile isdigit ds @ rest"
  using tw_ext[of isdigit ds rest] delimited_not_digit[OF assms] by auto

lemma scan_int_ext:
  assumes "scan_int s = Some (ip, r)" and "delimited rest"
  shows "scan_int (s @ rest) = Some (ip, r @ rest)"
proof (cases s)
  case Nil
  then show ?thesis using assms(1) by (simp add: scan_int_def)
next
  case (Cons m cs)
  show ?thesis
  proof (cases "m = 45")
    case True
    then obtain d ds where cs: "cs = d # ds"
      using assms(1) Cons by (cases cs) (auto simp: scan_int_def)
    show ?thesis using assms(1) unfolding Cons cs True
      by (auto simp: scan_int_def digits_ext[OF assms(2)] split: if_splits)
  next
    case False
    then show ?thesis using assms(1) unfolding Cons
      by (auto simp: scan_int_def digits_ext[OF assms(2)] split: if_splits)
  qed
qed

lemma scan_frac_ext:
  assumes "scan_frac s = (f, r)" and "delimited rest"
  shows "scan_frac (s @ rest) = (f, r @ rest)"
proof -
  have r: "rest = [] \<or> (hd rest \<noteq> 46 \<and> \<not> isdigit (hd rest))"
    using assms(2) by (auto simp: delimited_def isdigit_def)
  show ?thesis
  proof (cases s)
    case Nil
    then show ?thesis using assms(1) r
      by (cases rest) (auto simp: scan_frac_def split: list.splits)
  next
    case (Cons p s')
    show ?thesis
    proof (cases s')
      case Nil
      then show ?thesis using assms(1) r Cons
        by (cases rest) (auto simp: scan_frac_def split: list.splits)
    next
      case (Cons d ds)
      then show ?thesis using assms(1) \<open>s = p # s'\<close>
        by (auto simp: scan_frac_def digits_ext[OF assms(2)] split: if_splits)
    qed
  qed
qed

lemma scan_exp_ext:
  assumes "scan_exp s = (e, r)" and "delimited rest"
  shows "scan_exp (s @ rest) = (e, r @ rest)"
proof -
  have r: "rest = [] \<or> (hd rest \<noteq> 101 \<and> hd rest \<noteq> 69 \<and> hd rest \<noteq> 45 \<and> hd rest \<noteq> 43 \<and>
      \<not> isdigit (hd rest))"
    using assms(2) by (auto simp: delimited_def isdigit_def)
  note tn = tw_nil[of rest isdigit]
  show ?thesis
  proof (cases s)
    case Nil
    then show ?thesis using assms(1) r
      by (cases rest) (auto simp: scan_exp_def)
  next
    case (Cons c cs)
    show ?thesis
    proof (cases "c = 101 \<or> c = 69")
      case False
      then show ?thesis using assms(1) Cons by (auto simp: scan_exp_def)
    next
      case True
      show ?thesis
      proof (cases cs)
        case Nil
        then show ?thesis using assms(1) r True Cons tn
          by (cases rest; cases "tl rest") (auto simp: scan_exp_def)
      next
        case c1: (Cons sg cs')
        show ?thesis
        proof (cases cs')
          case Nil
          show ?thesis
          proof (cases rest)
            case Nil
            then show ?thesis using assms(1) by simp
          next
            case rc: (Cons x xs)
            have x: "\<not> isdigit x" using r rc by simp
            show ?thesis using assms(1) True x unfolding Cons c1 Nil rc
              by (auto simp: scan_exp_def isdigit_def split: if_splits)
          qed
        next
          case c2: (Cons y ys)
          show ?thesis using assms(1) True unfolding Cons c1 c2
            by (auto simp: scan_exp_def digits_ext[OF assms(2)] split: if_splits)
        qed
      qed
    qed
  qed
qed

lemma match_number_ext:
  assumes "match_number s = Some (t, b, r)" and "delimited rest"
  shows "match_number (s @ rest) = Some (t, b, r @ rest)"
proof -
  obtain ip s1 where a: "scan_int s = Some (ip, s1)"
    using assms(1) by (auto simp: match_number_def split: option.splits)
  obtain f s2 where b: "scan_frac s1 = (f, s2)" by (cases "scan_frac s1")
  obtain e s3 where c: "scan_exp s2 = (e, s3)" by (cases "scan_exp s2")
  have t: "t = ip @ f @ e" "b = (f \<noteq> [] \<or> e \<noteq> [])" "r = s3"
    using assms(1) a b c by (auto simp: match_number_def)
  show ?thesis
    unfolding match_number_def
    using scan_int_ext[OF a assms(2)] scan_frac_ext[OF b assms(2)] scan_exp_ext[OF c assms(2)] t
    by simp
qed

lemma dec_small: "n < 10 \<Longrightarrow> dec n = [48 + n]"
  by (subst dec.simps) simp

lemma dec_large: "\<not> n < 10 \<Longrightarrow> dec n = dec (n div 10) @ [48 + n mod 10]"
  by (subst dec.simps) simp

lemma dec_nonempty: "dec n \<noteq> []"
  by (cases "n < 10") (simp_all add: dec_small dec_large)

lemma dec_digits: "c \<in> set (dec n) \<Longrightarrow> isdigit c"
proof (induction n arbitrary: c rule: dec.induct)
  case (1 n)
  show ?case
  proof (cases "n < 10")
    case True
    then show ?thesis using "1.prems" by (auto simp: dec_small isdigit_def)
  next
    case False
    have "n mod 10 < 10" by simp
    then have "isdigit (48 + n mod 10)" unfolding isdigit_def by linarith
    then show ?thesis using False "1.prems" "1.IH" by (auto simp: dec_large)
  qed
qed

lemma hd_dec: "0 < n \<Longrightarrow> 49 \<le> hd (dec n) \<and> hd (dec n) \<le> 57"
proof (induction n rule: dec.induct)
  case (1 n)
  show ?case
  proof (cases "n < 10")
    case True
    then show ?thesis using "1.prems" by (simp add: dec_small)
  next
    case False
    then have "0 < n div 10" by simp
    then show ?thesis using False "1.IH" dec_nonempty[of "n div 10"] by (simp add: dec_large)
  qed
qed

lemma nat_of_digits_snoc: "nat_of_digits (ds @ [d]) = 10 * nat_of_digits ds + (d - 48)"
  by (simp add: nat_of_digits_def)

lemma nat_of_digits_dec: "nat_of_digits (dec n) = n"
proof (induction n rule: dec.induct)
  case (1 n)
  show ?case
  proof (cases "n < 10")
    case True
    then show ?thesis by (simp add: dec_small nat_of_digits_def)
  next
    case False
    then show ?thesis using "1.IH" by (simp add: dec_large nat_of_digits_snoc)
  qed
qed

lemma all_digits: "(\<And>c. c \<in> set ds \<Longrightarrow> isdigit c) \<Longrightarrow>
  takeWhile isdigit ds = ds \<and> dropWhile isdigit ds = []"
  by (induction ds) auto

lemma scan_int_dec: "scan_int (dec n) = Some (dec n, [])"
proof (cases "n = 0")
  case True
  then show ?thesis by (simp add: dec_small scan_int_def)
next
  case False
  obtain d ds where e: "dec n = d # ds" using dec_nonempty[of n] by (cases "dec n") auto
  have d: "49 \<le> d \<and> d \<le> 57" using hd_dec[of n] False e by simp
  have "\<And>c. c \<in> set ds \<Longrightarrow> isdigit c" using dec_digits[of _ n] e by simp
  then have "takeWhile isdigit ds = ds \<and> dropWhile isdigit ds = []" by (rule all_digits)
  then show ?thesis unfolding e using d by (simp add: scan_int_def)
qed

lemma hd_dec_not_minus: "hd (dec n) \<noteq> 45"
proof -
  have "isdigit (hd (dec n))" using dec_digits[of "hd (dec n)" n] dec_nonempty[of n] by simp
  then show ?thesis by (simp add: isdigit_def)
qed

lemma scan_int_neg_dec: "scan_int (45 # dec n) = Some (45 # dec n, [])"
proof -
  obtain d ds where e: "dec n = d # ds" using dec_nonempty[of n] by (cases "dec n") auto
  have "scan_int (dec n) = Some (dec n, [])" by (rule scan_int_dec)
  moreover have "d \<noteq> 45" using hd_dec_not_minus[of n] e by simp
  ultimately show ?thesis unfolding e by (auto simp: scan_int_def split: if_splits)
qed

lemma scan_int_int_repr: "scan_int (int_repr i) = Some (int_repr i, [])"
  by (simp add: int_repr_def scan_int_dec scan_int_neg_dec)

lemma match_number_int_repr: "match_number (int_repr i) = Some (int_repr i, False, [])"
  by (simp add: match_number_def scan_int_int_repr scan_frac_def scan_exp_def)

lemma int_of_text_int_repr: "int_of_text (int_repr i) = i"
proof (cases "i < 0")
  case True
  then show ?thesis by (simp add: int_repr_def int_of_text_def nat_of_digits_dec)
next
  case False
  obtain d ds where e: "dec (nat i) = d # ds"
    using dec_nonempty[of "nat i"] by (cases "dec (nat i)") auto
  have "d \<noteq> 45" using hd_dec_not_minus[of "nat i"] e by simp
  then have "int_of_text (dec (nat i)) = int (nat_of_digits (dec (nat i)))"
    unfolding e by (simp add: int_of_text_def)
  then show ?thesis using False by (simp add: int_repr_def nat_of_digits_dec)
qed

lemma hd_int_repr: "hd (int_repr i) = 45 \<or> isdigit (hd (int_repr i))"
  using dec_digits[of "hd (dec (nat i))" "nat i"] dec_nonempty[of "nat i"]
  by (simp add: int_repr_def)

lemma int_repr_nonempty: "int_repr i \<noteq> []"
  by (simp add: int_repr_def dec_nonempty)

lemma int_repr_second: "int_repr i = 45 # r \<Longrightarrow> r \<noteq> [] \<and> isdigit (hd r)"
  using dec_digits[of "hd (dec (nat (- i)))" "nat (- i)"] dec_nonempty[of "nat (- i)"]
    hd_dec_not_minus[of "nat i"] dec_nonempty[of "nat i"]
  by (auto simp: int_repr_def split: if_splits)

section \<open>\<^verbatim>\<open>json.loads\<close> reads back what \<^verbatim>\<open>json.dumps\<close> wrote\<close>

lemma skip_ws_id: "s = [] \<or> \<not> is_json_ws (hd s) \<Longrightarrow> skip_ws s = s"
  by (cases s) (auto simp: skip_ws_def)

lemma skip_ws_newline_indent: "skip_ws (newline_indent l @ s) = skip_ws s"
proof -
  have "dropWhile is_json_ws (replicate k 32 @ s) = dropWhile is_json_ws s" for k
    by (induction k) (auto simp: is_json_ws_def)
  then show ?thesis by (simp add: skip_ws_def newline_indent_def is_json_ws_def)
qed

lemma value_start_not_ws: "value_start c \<Longrightarrow> \<not> is_json_ws c"
  by (auto simp: value_start_def is_json_ws_def isdigit_def)

lemma value_start_not_close: "value_start c \<Longrightarrow> c \<noteq> 93 \<and> c \<noteq> 125 \<and> c \<noteq> 65279"
  by (auto simp: value_start_def isdigit_def)

lemma skip_ws_value: "s \<noteq> [] \<Longrightarrow> value_start (hd s) \<Longrightarrow> skip_ws (s @ r) = s @ r"
  by (cases s) (auto simp: skip_ws_def dest: value_start_not_ws)

lemma number_start:
  assumes "match_number s = Some x"
  shows "(\<exists>d r. s = d # r \<and> isdigit d) \<or> (\<exists>d r. s = 45 # d # r \<and> isdigit d)"
proof -
  obtain ip s1 where a: "scan_int s = Some (ip, s1)"
    using assms by (auto simp: match_number_def split: option.splits)
  show ?thesis
  proof (cases s)
    case Nil
    then show ?thesis using a by (simp add: scan_int_def)
  next
    case (Cons m cs)
    show ?thesis
    proof (cases "m = 45")
      case True
      then obtain d ds where "cs = d # ds" using a Cons by (cases cs) (auto simp: scan_int_def)
      then show ?thesis using a Cons True
        by (auto simp: scan_int_def isdigit_def split: if_splits)
    next
      case False
      then show ?thesis using a Cons by (auto simp: scan_int_def isdigit_def split: if_splits)
    qed
  qed
qed

lemma scan_atom_number:
  assumes "match_number s = Some (t, b, [])" and "delimited rest"
  shows "scan_atom F (s @ rest) =
     Some (if b then JFloat (float_of F t) else JInt (int_of_text t), rest)"
proof -
  have m: "match_number (s @ rest) = Some (t, b, rest)"
    using match_number_ext[OF assms] by simp
  from number_start[OF assms(1)]
  have "\<not> startswith (s @ rest) (py ''null'') \<and> \<not> startswith (s @ rest) (py ''true'') \<and>
        \<not> startswith (s @ rest) (py ''false'') \<and> \<not> startswith (s @ rest) (py ''NaN'') \<and>
        \<not> startswith (s @ rest) (py ''Infinity'') \<and> \<not> startswith (s @ rest) (py ''-Infinity'')"
    by (auto simp: py_def isdigit_def)
  then show ?thesis unfolding scan_atom_def using m by simp
qed

lemma float_text_start: "float_text t \<Longrightarrow> t \<noteq> [] \<and> value_start (hd t)"
  unfolding float_text_def
  by (auto simp: py_def value_start_def dest!: number_start)

lemma scan_atom_float:
  assumes "float_text t" and "delimited rest"
  shows "scan_atom F (t @ rest) = Some (JFloat (float_of F t), rest)"
proof -
  consider "t = py ''NaN''" | "t = py ''Infinity''" | "t = py ''-Infinity''"
    | "match_number t = Some (t, True, [])"
    using assms(1) unfolding float_text_def by blast
  then show ?thesis
  proof cases
    case 4
    then show ?thesis using scan_atom_number[OF 4 assms(2)] by simp
  qed (simp_all add: scan_atom_def py_def)
qed

lemma scan_atom_int:
  assumes "delimited rest"
  shows "scan_atom F (int_repr i @ rest) = Some (JInt i, rest)"
  using scan_atom_number[OF match_number_int_repr assms, of F i]
  by (simp add: int_of_text_int_repr)

lemma scan_once_atom:
  "s \<noteq> [] \<Longrightarrow> hd s \<noteq> 34 \<Longrightarrow> hd s \<noteq> 123 \<Longrightarrow> hd s \<noteq> 91 \<Longrightarrow>
     scan_once F (Suc n) s = scan_atom F s"
  by (cases s) auto

lemma int_repr_start: "int_repr i \<noteq> [] \<and> value_start (hd (int_repr i)) \<and>
  hd (int_repr i) \<noteq> 34 \<and> hd (int_repr i) \<noteq> 123 \<and> hd (int_repr i) \<noteq> 91"
  using hd_int_repr[of i] int_repr_nonempty[of i]
  by (auto simp: value_start_def isdigit_def)

lemma float_text_atom: "float_text t \<Longrightarrow> hd t \<noteq> 34 \<and> hd t \<noteq> 123 \<and> hd t \<noteq> 91"
  unfolding float_text_def
  by (auto simp: py_def isdigit_def dest!: number_start)

lemma encode_start: "encode_basestring_ascii s = 34 # concat (map escape_char s) @ [34]"
  by (simp add: encode_basestring_ascii_def)

text \<open>The first character of an encoded value.\<close>

lemma iterencode_start:
  "float_ok F \<Longrightarrow> iterencode F l d \<noteq> [] \<and> value_start (hd (iterencode F l d))"
  "float_ok F \<Longrightarrow> xs \<noteq> [] \<Longrightarrow>
     iterencode_list F l xs \<noteq> [] \<and> value_start (hd (iterencode_list F l xs))"
  "float_ok F \<Longrightarrow> kvs \<noteq> [] \<Longrightarrow>
     iterencode_dict F l kvs \<noteq> [] \<and> hd (iterencode_dict F l kvs) = 34"
proof (induction F l d and F l xs and F l kvs
    rule: iterencode_iterencode_list_iterencode_dict.induct)
  case (3 F level i)
  then show ?case using int_repr_start[of i] by simp
next
  case (4 F level x)
  then show ?case using float_text_start[of "float_repr F x"] by (simp add: float_ok_def)
next
  case (9 F level x xs)
  then show ?case by simp
qed (simp_all add: py_def value_start_def encode_start)

lemma after_item_closed:
  "\<not> is_json_ws cl \<Longrightarrow> after_item cl (newline_indent l @ cl # rest) = Closed rest"
proof -
  assume "\<not> is_json_ws cl"
  then have "skip_ws (cl # rest) = cl # rest" by (simp add: skip_ws_def)
  then have "skip_ws (newline_indent l @ cl # rest) = cl # rest"
    by (simp add: skip_ws_newline_indent)
  then show ?thesis by (simp add: after_item_def)
qed

lemma after_item_more:
  assumes "s \<noteq> []" and "value_start (hd s)" and "cl \<noteq> 44"
  shows "after_item cl (44 # newline_indent l @ s @ r) = More (s @ r)"
proof -
  have "skip_ws (44 # newline_indent l @ s @ r) = 44 # newline_indent l @ s @ r"
    by (simp add: skip_ws_def is_json_ws_def)
  moreover have "skip_ws (newline_indent l @ s @ r) = s @ r"
    using assms(1,2) by (simp add: skip_ws_newline_indent skip_ws_value)
  ultimately show ?thesis using assms(3) by (simp add: after_item_def)
qed

lemma read_key_encoded:
  assumes "str_ok k" and "V \<noteq> []" and "value_start (hd V)"
  shows "read_key (encode_basestring_ascii k @ py '': '' @ V @ r) = Some (k, V @ r)"
proof -
  have e: "encode_basestring_ascii k @ py '': '' @ V @ r =
      34 # (concat (map escape_char k) @ 34 # (58 # 32 # V @ r))"
    by (simp add: encode_start py_def)
  have s: "scanstring (concat (map escape_char k) @ 34 # (58 # 32 # V @ r)) =
      Some (k, 58 # 32 # V @ r)"
    using assms(1) by (rule scanstring_escaped)
  have "skip_ws (32 # V @ r) = V @ r"
    using skip_ws_value[OF assms(2,3), of r] by (simp add: skip_ws_def is_json_ws_def)
  moreover have "skip_ws (58 # 32 # V @ r) = 58 # 32 # V @ r"
    by (simp add: skip_ws_def is_json_ws_def)
  ultimately show ?thesis unfolding e read_key_def using s by simp
qed

lemma dict_set_fresh: "k \<notin> fst ` set acc \<Longrightarrow> dict_set acc k v = acc @ [(k, v)]"
  by (induction acc) auto

lemma delimited_comma: "delimited (44 # s)"
  by (simp add: delimited_def)

lemma delimited_newline: "delimited (newline_indent l @ s)"
  by (simp add: delimited_def newline_indent_def)

lemma is_json_ws_close: "\<not> is_json_ws 93" "\<not> is_json_ws 125"
  by (simp_all add: is_json_ws_def)

text \<open>The round trip, for a value, for the items of a list from any item on, and for
  the pairs of a dict from any pair on.\<close>

lemma scan_once_iterencode:
  "float_ok F \<Longrightarrow> wf_json d \<Longrightarrow> need d \<le> n \<Longrightarrow> delimited rest \<Longrightarrow>
     scan_once F n (iterencode F l d @ rest) = Some (d, rest)"
  "float_ok F \<Longrightarrow> xs \<noteq> [] \<Longrightarrow> wf_list xs \<Longrightarrow> need_list xs \<le> n \<Longrightarrow>
     parse_array F n acc (iterencode_list F l xs @ newline_indent cl @ 93 # rest) =
       Some (JList (acc @ xs), rest)"
  "float_ok F \<Longrightarrow> kvs \<noteq> [] \<Longrightarrow> wf_dict kvs \<Longrightarrow> distinct (map fst dacc @ map fst kvs) \<Longrightarrow>
     need_dict kvs \<le> n \<Longrightarrow>
     parse_pairs F n dacc (iterencode_dict F l kvs @ newline_indent cl @ 125 # rest) =
       Some (JDict (dacc @ kvs), rest)"
proof (induction F l d and F l xs and F l kvs
    arbitrary: n rest and n acc rest cl and n dacc rest cl
    rule: iterencode_iterencode_list_iterencode_dict.induct)
  case (1 F level)
  then obtain m where n: "n = Suc m" by (cases n) auto
  show ?case unfolding n by (simp add: py_def scan_atom_def)
next
  case (2 F level b)
  then obtain m where n: "n = Suc m" by (cases n) auto
  show ?case unfolding n by (simp add: py_def scan_atom_def)
next
  case (3 F level i)
  then obtain m where n: "n = Suc m" by (cases n) auto
  have "scan_once F (Suc m) (int_repr i @ rest) = scan_atom F (int_repr i @ rest)"
    using int_repr_start[of i] by (intro scan_once_atom) (auto simp: hd_append)
  also have "\<dots> = Some (JInt i, rest)"
    using "3.prems"(4) by (rule scan_atom_int)
  finally show ?case unfolding n by simp
next
  case (4 F level x)
  then obtain m where n: "n = Suc m" by (cases n) auto
  have t: "float_text (float_repr F x)" and r: "float_of F (float_repr F x) = x"
    using "4.prems"(1) by (auto simp: float_ok_def)
  have "scan_once F (Suc m) (float_repr F x @ rest) = scan_atom F (float_repr F x @ rest)"
    using float_text_start[OF t] float_text_atom[OF t]
    by (intro scan_once_atom) (auto simp: hd_append)
  also have "\<dots> = Some (JFloat (float_of F (float_repr F x)), rest)"
    using t "4.prems"(4) by (rule scan_atom_float)
  finally show ?case unfolding n r by simp
next
  case (5 F level s)
  then obtain m where n: "n = Suc m" by (cases n) auto
  have "scanstring (concat (map escape_char s) @ 34 # rest) = Some (s, rest)"
    using "5.prems"(2) by (intro scanstring_escaped) simp
  then show ?case unfolding n by (simp add: encode_start)
next
  case (6 F level xs)
  then obtain m where n: "n = Suc m" by (cases n) auto
  show ?case
  proof (cases "xs = []")
    case True
    then show ?thesis unfolding n by (simp add: py_def skip_ws_def is_json_ws_def)
  next
    case False
    let ?items = "iterencode_list F (level + 1) xs"
    let ?tail = "newline_indent level @ 93 # rest"
    have st: "?items \<noteq> []" "value_start (hd ?items)"
      using iterencode_start(2)[OF "6.prems"(1) False] by auto
    have sk: "skip_ws (newline_indent (level + 1) @ ?items @ ?tail) = ?items @ ?tail"
      using st by (simp add: skip_ws_newline_indent skip_ws_value)
    have ns: "\<not> startswith (?items @ ?tail) [93]"
      using st value_start_not_close[of "hd ?items"] by (cases ?items) auto
    have "parse_array F m [] (?items @ ?tail) = Some (JList ([] @ xs), rest)"
      using "6.prems" False n by (intro "6.IH") auto
    then show ?thesis unfolding n using False sk ns by simp
  qed
next
  case (7 F level kvs)
  then obtain m where n: "n = Suc m" by (cases n) auto
  show ?case
  proof (cases "kvs = []")
    case True
    then show ?thesis unfolding n by (simp add: py_def skip_ws_def is_json_ws_def)
  next
    case False
    let ?items = "iterencode_dict F (level + 1) kvs"
    let ?tail = "newline_indent level @ 125 # rest"
    have st: "?items \<noteq> []" "hd ?items = 34"
      using iterencode_start(3)[OF "7.prems"(1) False] by auto
    then have vs: "value_start (hd ?items)" by (simp add: value_start_def)
    have sk: "skip_ws (newline_indent (level + 1) @ ?items @ ?tail) = ?items @ ?tail"
      using st vs by (simp add: skip_ws_newline_indent skip_ws_value)
    have ns: "\<not> startswith (?items @ ?tail) [125]"
      using st by (cases ?items) auto
    have "parse_pairs F m [] (?items @ ?tail) = Some (JDict ([] @ kvs), rest)"
      using "7.prems" False n by (intro "7.IH") auto
    then show ?thesis unfolding n using False sk ns by simp
  qed
next
  case (8 F level)
  then show ?case by simp
next
  case (9 F level x xs)
  then obtain m where n: "n = Suc m" by (cases n) auto
  let ?tail = "newline_indent cl @ 93 # rest"
  show ?case
  proof (cases "xs = []")
    case True
    have "scan_once F m (iterencode F level x @ ?tail) = Some (x, ?tail)"
      using "9.prems" n True by (intro "9.IH"(1) delimited_newline) auto
    then show ?thesis unfolding n using True
      by (simp add: after_item_closed is_json_ws_close)
  next
    case False
    let ?items = "iterencode_list F level xs"
    let ?r = "44 # newline_indent level @ ?items @ ?tail"
    have st: "?items \<noteq> []" "value_start (hd ?items)"
      using iterencode_start(2)[OF "9.prems"(1) False] by auto
    have 1: "scan_once F m (iterencode F level x @ ?r) = Some (x, ?r)"
      using "9.prems" n by (intro "9.IH"(1) delimited_comma) auto
    have 2: "after_item 93 ?r = More (?items @ ?tail)"
      using st by (intro after_item_more) auto
    have 3: "parse_array F m (acc @ [x]) (?items @ ?tail) = Some (JList ((acc @ [x]) @ xs), rest)"
      using "9.prems" n False by (intro "9.IH"(2)) auto
    show ?thesis unfolding n using False 1 2 3 by simp
  qed
next
  case (10 F level)
  then show ?case by simp
next
  case (11 F level k v kvs)
  then obtain m where n: "n = Suc m" by (cases n) auto
  let ?tail = "newline_indent cl @ 125 # rest"
  have k: "str_ok k" "wf_json v" "k \<notin> fst ` set dacc" using "11.prems" by auto
  have ds: "dict_set dacc k v = dacc @ [(k, v)]" using k(3) by (rule dict_set_fresh)
  have sv: "iterencode F level v \<noteq> []" "value_start (hd (iterencode F level v))"
    using iterencode_start(1)[OF "11.prems"(1), of level v] by auto
  show ?case
  proof (cases "kvs = []")
    case True
    have 0: "read_key (encode_basestring_ascii k @ py '': '' @ iterencode F level v @ ?tail) =
        Some (k, iterencode F level v @ ?tail)"
      using k(1) sv by (rule read_key_encoded)
    have 1: "scan_once F m (iterencode F level v @ ?tail) = Some (v, ?tail)"
      using "11.prems" n True k by (intro "11.IH"(1) delimited_newline) auto
    show ?thesis unfolding n using True 0 1 ds
      by (simp add: after_item_closed is_json_ws_close)
  next
    case False
    let ?items = "iterencode_dict F level kvs"
    let ?r = "44 # newline_indent level @ ?items @ ?tail"
    have st: "?items \<noteq> []" "hd ?items = 34"
      using iterencode_start(3)[OF "11.prems"(1) False] by auto
    then have vs: "value_start (hd ?items)" by (simp add: value_start_def)
    have 0: "read_key (encode_basestring_ascii k @ py '': '' @ iterencode F level v @ ?r) =
        Some (k, iterencode F level v @ ?r)"
      using k(1) sv by (rule read_key_encoded)
    have 1: "scan_once F m (iterencode F level v @ ?r) = Some (v, ?r)"
      using "11.prems" n k by (intro "11.IH"(1) delimited_comma) auto
    have 2: "after_item 125 ?r = More (?items @ ?tail)"
      using st vs by (intro after_item_more) auto
    have 3: "parse_pairs F m (dacc @ [(k, v)]) (?items @ ?tail) =
        Some (JDict ((dacc @ [(k, v)]) @ kvs), rest)"
      using "11.prems" n False by (intro "11.IH"(2)) auto
    show ?thesis unfolding n using False 0 1 2 3 ds by simp
  qed
qed

lemma need_le_length:
  "float_ok F \<Longrightarrow> need d \<le> length (iterencode F l d)"
  "float_ok F \<Longrightarrow> need_list xs \<le> Suc (length (iterencode_list F l xs))"
  "float_ok F \<Longrightarrow> need_dict kvs \<le> Suc (length (iterencode_dict F l kvs))"
proof (induction F l d and F l xs and F l kvs
    rule: iterencode_iterencode_list_iterencode_dict.induct)
  case (3 F level i)
  then show ?case using int_repr_nonempty[of i] by (cases "int_repr i") auto
next
  case (4 F level x)
  then have "float_text (float_repr F x)" by (simp add: float_ok_def)
  then have "float_repr F x \<noteq> []" using float_text_start by blast
  then show ?case by (cases "float_repr F x") auto
next
  case (9 F level x xs)
  then show ?case by (cases xs) (auto simp: newline_indent_def)
next
  case (11 F level k v kvs)
  then show ?case by (cases kvs) (auto simp: newline_indent_def encode_start py_def)
qed (auto simp: py_def encode_start newline_indent_def)

text \<open>\<^verbatim>\<open>json.loads\<close> of what \<^verbatim>\<open>json.dumps\<close> wrote, with or without the line feed the
  script appends, is the document.\<close>

lemma json_loads_dumps:
  assumes "float_ok F" and "wf_json d" and "tail = [] \<or> tail = [10]"
  shows "json_loads F (json_dumps F d @ tail) = Inr d"
proof -
  let ?s = "iterencode F 0 d"
  have st: "?s \<noteq> []" "value_start (hd ?s)"
    using iterencode_start(1)[OF assms(1), of 0 d] by auto
  have b: "\<not> startswith (?s @ tail) [65279]"
    using st value_start_not_close[of "hd ?s"] by (cases ?s) auto
  have sk: "skip_ws (?s @ tail) = ?s @ tail" using st by (rule skip_ws_value)
  have d: "delimited tail" using assms(3) by (auto simp: delimited_def)
  have "need d \<le> Suc (length (?s @ tail))"
    using need_le_length(1)[OF assms(1), of d 0] by simp
  then have p: "scan_once F (Suc (length (?s @ tail))) (?s @ tail) = Some (d, tail)"
    using assms(1,2) d by (intro scan_once_iterencode(1))
  have t: "skip_ws tail = []" using assms(3) by (auto simp: skip_ws_def is_json_ws_def)
  show ?thesis unfolding json_loads_def json_dumps_def using b sk p t by simp
qed

text \<open>The characters of the output: printable ASCII and the line feed.\<close>

lemma scan_int_chars:
  "scan_int s = Some (ip, r) \<Longrightarrow> c \<in> set ip \<Longrightarrow> c = 45 \<or> isdigit c"
  unfolding scan_int_def
  by (auto split: list.splits if_splits simp: isdigit_def dest!: set_takeWhileD)

lemma scan_frac_chars:
  "scan_frac s = (f, r) \<Longrightarrow> c \<in> set f \<Longrightarrow> c = 46 \<or> isdigit c"
  unfolding scan_frac_def
  by (auto split: list.splits if_splits dest!: set_takeWhileD)

lemma scan_exp_chars:
  "scan_exp s = (e, r) \<Longrightarrow> c \<in> set e \<Longrightarrow>
     c = 101 \<or> c = 69 \<or> c = 45 \<or> c = 43 \<or> isdigit c"
  unfolding scan_exp_def
  by (auto split: list.splits if_splits dest!: set_takeWhileD)

lemma match_number_chars:
  assumes "match_number s = Some (t, b, r)" and "c \<in> set t"
  shows "32 \<le> c \<and> c \<le> 126"
proof -
  obtain ip s1 where a: "scan_int s = Some (ip, s1)"
    using assms(1) by (auto simp: match_number_def split: option.splits)
  obtain f s2 where b: "scan_frac s1 = (f, s2)" by (cases "scan_frac s1")
  obtain e s3 where c: "scan_exp s2 = (e, s3)" by (cases "scan_exp s2")
  have "t = ip @ f @ e" using assms(1) a b c by (auto simp: match_number_def)
  then have "c \<in> set ip \<or> c \<in> set f \<or> c \<in> set e" using assms(2) by auto
  then show ?thesis
    using scan_int_chars[OF a, of c] scan_frac_chars[OF b, of c] scan_exp_chars[OF c, of c]
    by (auto simp: isdigit_def)
qed

lemma float_text_chars: "float_text t \<Longrightarrow> c \<in> set t \<Longrightarrow> 32 \<le> c \<and> c \<le> 126"
  unfolding float_text_def by (auto simp: py_def dest: match_number_chars)

lemma dec_chars: "c \<in> set (dec n) \<Longrightarrow> 32 \<le> c \<and> c \<le> 126"
  by (drule dec_digits) (simp add: isdigit_def)

lemma int_repr_chars: "c \<in> set (int_repr i) \<Longrightarrow> 32 \<le> c \<and> c \<le> 126"
  by (auto simp: int_repr_def split: if_splits dest: dec_chars)

lemma iterencode_chars:
  "float_ok F \<Longrightarrow> c \<in> set (iterencode F l d) \<Longrightarrow> c = 10 \<or> (32 \<le> c \<and> c \<le> 126)"
  "float_ok F \<Longrightarrow> c \<in> set (iterencode_list F l xs) \<Longrightarrow> c = 10 \<or> (32 \<le> c \<and> c \<le> 126)"
  "float_ok F \<Longrightarrow> c \<in> set (iterencode_dict F l kvs) \<Longrightarrow> c = 10 \<or> (32 \<le> c \<and> c \<le> 126)"
proof (induction F l d and F l xs and F l kvs
    rule: iterencode_iterencode_list_iterencode_dict.induct)
  case (2 F level b)
  then show ?case by (cases b) (auto simp: py_def)
next
  case (3 F level i)
  then show ?case using int_repr_chars[of c i] by simp
next
  case (4 F level x)
  then show ?case using float_text_chars[of "float_repr F x" c] by (simp add: float_ok_def)
next
  case (5 F level s)
  then show ?case using encode_basestring_ascii_printable[of c s] by simp
next
  case (6 F level xs)
  then show ?case by (auto simp: py_def newline_indent_def split: if_splits)
next
  case (7 F level kvs)
  then show ?case by (auto simp: py_def newline_indent_def split: if_splits)
next
  case (9 F level x xs)
  then show ?case by (auto simp: newline_indent_def split: if_splits)
next
  case (11 F level k v kvs)
  then show ?case using encode_basestring_ascii_printable[of c k]
    by (auto simp: py_def newline_indent_def split: if_splits)
qed (auto simp: py_def)

lemma universal_newlines_id: "13 \<notin> set s \<Longrightarrow> universal_newlines s = s"
  by (induction s) auto

lemma universal_newlines_dumps:
  assumes "float_ok F"
  shows "universal_newlines (json_dumps F d @ [10]) = json_dumps F d @ [10]"
proof -
  have "13 \<notin> set (json_dumps F d @ [10])"
    unfolding json_dumps_def using iterencode_chars(1)[OF assms, of 13 0 d] by auto
  then show ?thesis by (rule universal_newlines_id)
qed

section \<open>The JSON updates\<close>

lemma dict_get_dict_set:
  "dict_get (dict_set kvs k v) k' = (if k' = k then Some v else dict_get kvs k')"
  by (induction kvs) (auto simp: dict_get_def)

lemma dict_set_keys:
  "map fst (dict_set kvs k v) =
     (if k \<in> fst ` set kvs then map fst kvs else map fst kvs @ [k])"
  by (induction kvs) (auto simp: rev_image_eqI)

lemma dict_set_distinct: "distinct (map fst kvs) \<Longrightarrow> distinct (map fst (dict_set kvs k v))"
  by (simp add: dict_set_keys)

lemma update_json_version_eq:
  assumes "files w p = Some t"
  shows "update_json_version F p v w =
     (case json_loads F (universal_newlines t) of
        Inl e \<Rightarrow> (Inl e, w)
      | Inr data \<Rightarrow>
          (case data of
             JDict kvs \<Rightarrow>
               (Inr (), w\<lparr>files := (files w)(p \<mapsto>
                  json_dumps F (set_root_package_version
                    (JDict (dict_set kvs (py ''version'') (JStr v))) v) @ [10])\<rparr>)
           | _ \<Rightarrow> (Inl TypeError, w)))"
  using assms
  by (simp add: update_json_version_def io_bind_def io_pure_def read_text_def setitem_def
      write_text_def split: sum.splits json.splits)

lemma update_tauri_conf_eq:
  assumes "files w p = Some t"
  shows "update_tauri_conf F p v w =
     (case json_loads F (universal_newlines t) of
        Inl e \<Rightarrow> (Inl e, w)
      | Inr data \<Rightarrow>
          (case data of
             JDict kvs \<Rightarrow>
               (Inr (), w\<lparr>files := (files w)(p \<mapsto>
                  json_dumps F (JDict (dict_set kvs (py ''version'') (JStr v))) @ [10])\<rparr>)
           | _ \<Rightarrow> (Inl TypeError, w)))"
  using assms
  by (simp add: update_tauri_conf_def io_bind_def io_pure_def read_text_def setitem_def
      write_text_def split: sum.splits json.splits)

lemma py_version_packages: "py ''version'' \<noteq> py ''packages''" "py ''packages'' \<noteq> py ''version''"
  by (simp_all add: py_def)

text \<open>What \<open>set_root_package_version\<close> leaves and what it sets.\<close>

lemma set_root_package_version_top:
  "\<exists>kvs'. set_root_package_version (JDict kvs) v = JDict kvs' \<and>
          dict_get kvs' (py ''version'') = dict_get kvs (py ''version'')"
  by (auto simp: set_root_package_version_def dict_get_dict_set py_version_packages
      split: option.splits json.splits)

lemma set_root_package_version_nested:
  assumes "dict_get kvs (py ''packages'') = Some (JDict packages)"
    and "dict_get packages [] = Some (JDict root_package)"
  shows "set_root_package_version (JDict kvs) v =
     JDict (dict_set kvs (py ''packages'')
       (JDict (dict_set packages []
         (JDict (dict_set root_package (py ''version'') (JStr v))))))"
  using assms by (simp add: set_root_package_version_def)

lemma set_root_package_version_other:
  assumes "\<not> (\<exists>packages root_package. dict_get kvs (py ''packages'') = Some (JDict packages) \<and>
             dict_get packages [] = Some (JDict root_package))"
  shows "set_root_package_version (JDict kvs) v = JDict kvs"
  using assms by (auto simp: set_root_package_version_def split: option.splits json.splits)

lemma float_ok_one_float: "float_ok one_float"
proof -
  have "match_number (py ''0.0'') = Some (py ''0.0'', True, [])"
    by (simp add: match_number_def scan_int_def scan_frac_def scan_exp_def py_def isdigit_def)
  then show ?thesis by (simp add: float_ok_def one_float_def float_text_def)
qed

lemma wf_ex_doc: "wf_json ex_doc"
  by (simp add: ex_doc_def py_def is_high_surrogate_def)

lemma json_loads_written:
  assumes "float_ok F" and "wf_json d"
  shows "json_loads F (universal_newlines (json_dumps F d @ [10])) = Inr d"
  using json_loads_dumps[OF assms, of "[10]"] universal_newlines_dumps[OF assms(1), of d]
  by simp

lemma newline_indent_1: "newline_indent 1 = [10, 32, 32]"
  by (simp add: newline_indent_def numeral_2_eq_2)




section \<open>What \<^verbatim>\<open>json.loads\<close> returns is well formed\<close>

lemma unicode_text_Cons:
  "unicode_text (c # s) \<longleftrightarrow>
     c < 1114112 \<and> \<not> is_high_surrogate c \<and> \<not> is_low_surrogate c \<and> unicode_text s"
  by (auto simp: unicode_text_def)

lemma unicode_text_subset: "unicode_text s \<Longrightarrow> set r \<subseteq> set s \<Longrightarrow> unicode_text r"
  by (auto simp: unicode_text_def)

lemma unicode_text_drop: "unicode_text s \<Longrightarrow> unicode_text (drop n s)"
  by (rule unicode_text_subset) (auto dest: in_set_dropD)

lemma unicode_text_dropWhile: "unicode_text s \<Longrightarrow> unicode_text (dropWhile P s)"
  by (rule unicode_text_subset) (auto dest: set_dropWhileD)

lemma unicode_text_skip_ws: "unicode_text s \<Longrightarrow> unicode_text (skip_ws s)"
  unfolding skip_ws_def by (rule unicode_text_dropWhile)

lemma unicode_text_tl: "unicode_text s \<Longrightarrow> unicode_text (tl s)"
  by (cases s) (auto simp: unicode_text_Cons unicode_text_def)

lemma hex_val_lt: "hex_val c = Some x \<Longrightarrow> x < 16"
  by (auto simp: hex_val_def split: if_splits)

lemma decode_hex4_lt: "decode_hex4 a b c d = Some n \<Longrightarrow> n < 65536"
  by (auto simp: decode_hex4_def split: option.splits dest!: hex_val_lt)

lemma join_surrogates_range:
  assumes "is_high_surrogate hi" and "is_low_surrogate lo"
  shows "65536 \<le> join_surrogates hi lo" and "join_surrogates hi lo < 1114112"
proof -
  show "65536 \<le> join_surrogates hi lo" by (simp add: join_surrogates_def)
  have "hi - 55296 \<le> 1023" "lo - 56320 \<le> 1023"
    using assms by (auto simp: is_high_surrogate_def is_low_surrogate_def)
  then have "(hi - 55296) * 1024 + (lo - 56320) \<le> 1023 * 1024 + 1023"
    by (intro add_mono mult_right_mono) auto
  then show "join_surrogates hi lo < 1114112" by (simp add: join_surrogates_def)
qed

lemma not_surrogate_ge: "65536 \<le> c \<Longrightarrow> \<not> is_high_surrogate c \<and> \<not> is_low_surrogate c"
  by (simp add: is_high_surrogate_def is_low_surrogate_def)

lemma backslash_range:
  "backslash e = Some c \<Longrightarrow> c < 128"
  by (auto simp: backslash_def split: if_splits)

lemma small_not_surrogate: "c < 128 \<Longrightarrow> \<not> is_high_surrogate c \<and> \<not> is_low_surrogate c"
  by (simp add: is_high_surrogate_def is_low_surrogate_def)

text \<open>What one round of \<open>second_surrogate\<close> gives.\<close>

lemma second_surrogate_cases:
  assumes "second_surrogate uni r = Str_char c rest" and "is_high_surrogate uni"
  shows "(c = uni \<and> rest = r) \<or> (65536 \<le> c \<and> c < 1114112 \<and> rest = drop 6 r)"
  using assms join_surrogates_range[of uni]
  by (auto simp: second_surrogate_def split: if_splits option.splits)

lemma string_step_char:
  assumes "unicode_text s" and "string_step s = Str_char c rest"
  shows "c < 1114112 \<and> unicode_text rest \<and>
         (is_high_surrogate c \<longrightarrow> second_surrogate c rest = Str_char c rest)"
proof (cases s)
  case Nil
  then show ?thesis using assms(2) by (simp add: string_step_def)
next
  case (Cons c0 cs)
  have ucs: "unicode_text cs" and c0: "c0 < 1114112" "\<not> is_high_surrogate c0"
    using assms(1) Cons by (auto simp: unicode_text_Cons)
  show ?thesis
  proof (cases "c0 = 92")
    case False
    then have "c = c0" "rest = cs"
      using assms(2) Cons by (auto simp: string_step_def split: if_splits)
    then show ?thesis using ucs c0 by simp
  next
    case True
    then obtain e es where cs: "cs = e # es"
      using assms(2) Cons by (cases cs) (auto simp: string_step_def)
    have ues: "unicode_text es" using ucs cs by (simp add: unicode_text_Cons)
    show ?thesis
    proof (cases "e = 117")
      case False
      then have "backslash e = Some c" "rest = es"
        using assms(2) Cons cs True by (auto simp: string_step_def split: option.splits)
      then show ?thesis using ues backslash_range[of e c] small_not_surrogate[of c] by auto
    next
      case e: True
      let ?r = "drop 4 es"
      obtain uni where d: "decode_hex4 (es ! 0) (es ! 1) (es ! 2) (es ! 3) = Some uni"
        and st: "(if is_high_surrogate uni then second_surrogate uni ?r else Str_char uni ?r) =
                 Str_char c rest"
        using assms(2) Cons cs True e
        by (auto simp: string_step_def split: if_splits option.splits)
      have u: "uni < 65536" using d by (rule decode_hex4_lt)
      have ur: "unicode_text ?r" using ues by (rule unicode_text_drop)
      show ?thesis
      proof (cases "is_high_surrogate uni")
        case False
        then show ?thesis using st u ur by auto
      next
        case h: True
        then have ss: "second_surrogate uni ?r = Str_char c rest" using st by simp
        from second_surrogate_cases[OF ss h]
        show ?thesis
        proof
          assume "c = uni \<and> rest = ?r"
          then show ?thesis using ss u ur by simp
        next
          assume a: "65536 \<le> c \<and> c < 1114112 \<and> rest = drop 6 ?r"
          have "unicode_text (drop 6 ?r)" using ur by (rule unicode_text_drop)
          then have "unicode_text rest" using a by (simp only:)
          then show ?thesis using a not_surrogate_ge[of c] by simp
        qed
      qed
    qed
  qed
qed

text \<open>After a high surrogate that stayed alone, the next round gives no low surrogate.\<close>

lemma string_step_after_high:
  assumes "unicode_text r" and "is_high_surrogate uni"
    and "second_surrogate uni r = Str_char uni r"
    and "string_step r = Str_char c rest"
  shows "\<not> is_low_surrogate c"
proof (cases r)
  case Nil
  then show ?thesis using assms(4) by (simp add: string_step_def)
next
  case (Cons c0 cs)
  have c0: "\<not> is_low_surrogate c0" using assms(1) Cons by (simp add: unicode_text_Cons)
  show ?thesis
  proof (cases "c0 = 92")
    case False
    then have "c = c0" using assms(4) Cons by (auto simp: string_step_def split: if_splits)
    then show ?thesis using c0 by simp
  next
    case True
    then obtain e es where cs: "cs = e # es"
      using assms(4) Cons by (cases cs) (auto simp: string_step_def)
    show ?thesis
    proof (cases "e = 117")
      case False
      then have "backslash e = Some c"
        using assms(4) Cons cs True by (auto simp: string_step_def split: option.splits)
      then show ?thesis using backslash_range[of e c] small_not_surrogate[of c] by auto
    next
      case e: True
      have len: "\<not> length es < 5"
        using assms(4) Cons cs True e by (auto simp: string_step_def split: if_splits)
      obtain uni2 where d: "decode_hex4 (es ! 0) (es ! 1) (es ! 2) (es ! 3) = Some uni2"
        and st: "(if is_high_surrogate uni2 then second_surrogate uni2 (drop 4 es)
                  else Str_char uni2 (drop 4 es)) = Str_char c rest"
        using assms(4) Cons cs True e len
        by (auto simp: string_step_def split: if_splits option.splits)
      have r: "6 < length r" "r ! 0 = 92" "r ! 1 = 117"
        "r ! 2 = es ! 0" "r ! 3 = es ! 1" "r ! 4 = es ! 2" "r ! 5 = es ! 3"
        using len unfolding Cons cs True e by (simp_all add: numeral_nat)
      have nl: "\<not> is_low_surrogate uni2"
      proof
        assume "is_low_surrogate uni2"
        then have "second_surrogate uni r = Str_char (join_surrogates uni uni2) (drop 6 r)"
          using r d by (simp add: second_surrogate_def)
        then have "join_surrogates uni uni2 = uni" using assms(3) by simp
        moreover have "uni < 65536" using assms(2) by (simp add: is_high_surrogate_def)
        ultimately show False by (simp add: join_surrogates_def)
      qed
      show ?thesis
      proof (cases "is_high_surrogate uni2")
        case False
        then show ?thesis using st nl by auto
      next
        case h: True
        then have "second_surrogate uni2 (drop 4 es) = Str_char c rest" using st by simp
        from second_surrogate_cases[OF this h] show ?thesis
          using nl not_surrogate_ge[of c] by auto
      qed
    qed
  qed
qed

lemma second_surrogate_not_end: "second_surrogate uni r \<noteq> Str_end x"
  by (simp add: second_surrogate_def split: option.splits)

lemma string_step_end: "string_step s = Str_end rest \<Longrightarrow> s = 34 # rest"
  using second_surrogate_not_end
  by (auto simp: string_step_def split: list.splits if_splits option.splits)

lemma scanstring_Some_cases:
  assumes "scanstring s = Some (str, rest)"
  shows "(string_step s = Str_end rest \<and> str = []) \<or>
         (\<exists>c r str'. string_step s = Str_char c r \<and> scanstring r = Some (str', rest) \<and>
            str = c # str')"
  using assms
  by (subst (asm) scanstring.simps)
    (auto split: str_step.splits simp: str_cons_def split: option.splits)

text \<open>The text \<open>scanstring\<close> decodes from a text without surrogates is a \<open>str_ok\<close>
  text.\<close>

lemma scanstring_ok:
  "unicode_text s \<Longrightarrow> scanstring s = Some (str, rest) \<Longrightarrow> str_ok str \<and> unicode_text rest"
proof (induction s arbitrary: str rest rule: scanstring.induct)
  case (1 s)
  from scanstring_Some_cases[OF "1.prems"(2)]
  show ?case
  proof (elim disjE conjE exE)
    assume e: "string_step s = Str_end rest" "str = []"
    then have "rest = tl s" by (auto dest: string_step_end)
    then show ?thesis using e "1.prems"(1) by (simp add: unicode_text_tl)
  next
    fix c r str'
    assume st: "string_step s = Str_char c r" and sc: "scanstring r = Some (str', rest)"
      and str: "str = c # str'"
    note ch = string_step_char[OF "1.prems"(1) st]
    have ih: "str_ok str' \<and> unicode_text rest"
      using "1.IH"[OF st _ sc] ch by simp
    have "\<not> (is_high_surrogate c \<and> is_low_surrogate d)" if s': "str' = d # t" for d t
    proof
      assume a: "is_high_surrogate c \<and> is_low_surrogate d"
      then have ss: "second_surrogate c r = Str_char c r" using ch by simp
      from scanstring_Some_cases[OF sc] s'
      obtain r' where "string_step r = Str_char d r'" by auto
      then have "\<not> is_low_surrogate d"
        using ch a ss by (intro string_step_after_high[of r c d r']) auto
      then show False using a by simp
    qed
    then have "str_ok (c # str')" using ih ch by (cases str') auto
    then show ?thesis using ih str by simp
  qed
qed

lemma scan_int_rest: "scan_int s = Some (ip, r) \<Longrightarrow> set r \<subseteq> set s"
  unfolding scan_int_def
  by (auto split: list.splits if_splits dest: set_dropWhileD)

lemma scan_frac_rest: "scan_frac s = (f, r) \<Longrightarrow> set r \<subseteq> set s"
  unfolding scan_frac_def
  by (auto split: list.splits if_splits dest: set_dropWhileD)

lemma scan_exp_rest: "scan_exp s = (e, r) \<Longrightarrow> set r \<subseteq> set s"
  unfolding scan_exp_def
  by (auto split: list.splits if_splits dest: set_dropWhileD)

lemma match_number_rest:
  assumes "match_number s = Some (t, b, r)"
  shows "set r \<subseteq> set s"
proof -
  obtain ip s1 where a: "scan_int s = Some (ip, s1)"
    using assms by (auto simp: match_number_def split: option.splits)
  obtain f s2 where b: "scan_frac s1 = (f, s2)" by (cases "scan_frac s1")
  obtain e s3 where c: "scan_exp s2 = (e, s3)" by (cases "scan_exp s2")
  have "r = s3" using assms a b c by (auto simp: match_number_def)
  then show ?thesis
    using scan_int_rest[OF a] scan_frac_rest[OF b] scan_exp_rest[OF c] by blast
qed

lemma scan_atom_wf:
  assumes "scan_atom F s = Some (d, r)"
  shows "wf_json d \<and> set r \<subseteq> set s"
proof -
  have dr: "set (drop k s) \<subseteq> set s" for k by (auto dest: in_set_dropD)
  show ?thesis
    using assms dr unfolding scan_atom_def
    by (auto split: if_splits option.splits dest!: match_number_rest)
qed

lemma read_key_ok:
  assumes "unicode_text s" and "read_key s = Some (k, r)"
  shows "str_ok k \<and> unicode_text r"
proof -
  obtain q s1 where s: "s = q # s1" using assms(2) by (cases s) (auto simp: read_key_def)
  obtain s2 where sc: "scanstring s1 = Some (k, s2)"
    using assms(2) unfolding s read_key_def
    by (auto split: if_splits option.splits list.splits)
  have u1: "unicode_text s1" using assms(1) s by (simp add: unicode_text_Cons)
  have k: "str_ok k" and u2: "unicode_text s2" using scanstring_ok[OF u1 sc] by auto
  obtain s3 where r: "skip_ws s2 = 58 # s3" "r = skip_ws s3"
    using assms(2) sc unfolding s read_key_def
    by (auto split: if_splits option.splits list.splits)
  have "unicode_text (skip_ws s2)" using u2 by (rule unicode_text_skip_ws)
  then have "unicode_text s3" unfolding r(1) by (simp add: unicode_text_Cons)
  then show ?thesis using k r(2) by (simp add: unicode_text_skip_ws)
qed

lemma after_item_ok:
  assumes "unicode_text s"
  shows "after_item cl s = Closed r \<Longrightarrow> unicode_text r"
    and "after_item cl s = More r \<Longrightarrow> unicode_text r"
proof -
  have u: "unicode_text (skip_ws s)" using assms by (rule unicode_text_skip_ws)
  show "after_item cl s = Closed r \<Longrightarrow> unicode_text r"
    using u unfolding after_item_def
    by (auto split: list.splits if_splits simp: unicode_text_Cons)
  show "after_item cl s = More r \<Longrightarrow> unicode_text r"
    using u unfolding after_item_def
    by (auto split: list.splits if_splits simp: unicode_text_Cons unicode_text_skip_ws)
qed

lemma wf_dict_append: "wf_dict (a @ b) \<longleftrightarrow> wf_dict a \<and> wf_dict b"
  by (induction a) auto

lemma wf_list_append: "wf_list (a @ b) \<longleftrightarrow> wf_list a \<and> wf_list b"
  by (induction a) auto

lemma wf_dict_dict_set:
  "wf_dict kvs \<Longrightarrow> str_ok k \<Longrightarrow> wf_json v \<Longrightarrow> wf_dict (dict_set kvs k v)"
  by (induction kvs) auto

text \<open>The documents the decoder returns, from a text without surrogates.\<close>

lemma scan_once_wf:
  "scan_once F n s = Some (d, r) \<Longrightarrow> unicode_text s \<Longrightarrow> wf_json d \<and> unicode_text r"
  "parse_pairs F n dacc s = Some (d, r) \<Longrightarrow> unicode_text s \<Longrightarrow> distinct (map fst dacc) \<Longrightarrow>
     wf_dict dacc \<Longrightarrow> wf_json d \<and> unicode_text r"
  "parse_array F n acc s = Some (d, r) \<Longrightarrow> unicode_text s \<Longrightarrow> wf_list acc \<Longrightarrow>
     wf_json d \<and> unicode_text r"
proof (induction F n s and F n dacc s and F n acc s arbitrary: d r and d r and d r
    rule: scan_once_parse_pairs_parse_array.induct)
  case (1 F s)
  then show ?case by simp
next
  case (2 F n)
  then show ?case by simp
next
  case (3 F n c cs)
  have ucs: "unicode_text cs" using "3.prems"(2) by (simp add: unicode_text_Cons)
  have usk: "unicode_text (skip_ws cs)" using ucs by (rule unicode_text_skip_ws)
  consider (str) "c = 34" | (obj) "c \<noteq> 34" "c = 123" | (arr) "c \<noteq> 34" "c \<noteq> 123" "c = 91"
    | (atom) "c \<noteq> 34" "c \<noteq> 123" "c \<noteq> 91" by blast
  then show ?case
  proof cases
    case str
    then obtain t where "scanstring cs = Some (t, r)" "d = JStr t"
      using "3.prems"(1) by (auto split: option.splits)
    then show ?thesis using scanstring_ok[OF ucs] by auto
  next
    case obj
    show ?thesis
    proof (cases "startswith (skip_ws cs) [125]")
      case True
      then have "d = JDict []" "r = tl (skip_ws cs)" using "3.prems"(1) obj by auto
      then show ?thesis using usk by (simp add: unicode_text_tl)
    next
      case False
      then have "parse_pairs F n [] (skip_ws cs) = Some (d, r)" using "3.prems"(1) obj by simp
      then show ?thesis using "3.IH"(1)[OF obj False _ usk] by simp
    qed
  next
    case arr
    show ?thesis
    proof (cases "startswith (skip_ws cs) [93]")
      case True
      then have "d = JList []" "r = tl (skip_ws cs)" using "3.prems"(1) arr by auto
      then show ?thesis using usk by (simp add: unicode_text_tl)
    next
      case False
      then have "parse_array F n [] (skip_ws cs) = Some (d, r)" using "3.prems"(1) arr by simp
      then show ?thesis using "3.IH"(2)[OF arr False _ usk] by simp
    qed
  next
    case atom
    then have "scan_atom F (c # cs) = Some (d, r)" using "3.prems"(1) by simp
    then have "wf_json d \<and> set r \<subseteq> set (c # cs)" by (rule scan_atom_wf)
    then show ?thesis using unicode_text_subset[OF "3.prems"(2), of r] by blast
  qed
next
  case (4 F acc s)
  then show ?case by simp
next
  case (5 F n acc s)
  obtain key s1 where rk: "read_key s = Some (key, s1)"
    using "5.prems"(1) by (auto split: option.splits)
  obtain val s2 where so: "scan_once F n s1 = Some (val, s2)"
    using "5.prems"(1) rk by (auto split: option.splits)
  have k: "str_ok key" and u1: "unicode_text s1" using read_key_ok[OF "5.prems"(2) rk] by auto
  have v: "wf_json val" and u2: "unicode_text s2" using "5.IH"(1)[OF rk refl so u1] by auto
  have acc': "distinct (map fst (dict_set acc key val))" "wf_dict (dict_set acc key val)"
    using "5.prems"(3,4) k v by (auto intro: dict_set_distinct wf_dict_dict_set)
  show ?case
  proof (cases "after_item 125 s2")
    case (Closed x)
    then have "d = JDict (dict_set acc key val)" "r = x" using "5.prems"(1) rk so by auto
    then show ?thesis using acc' after_item_ok(1)[OF u2 Closed] by simp
  next
    case (More x)
    then have "parse_pairs F n (dict_set acc key val) x = Some (d, r)"
      using "5.prems"(1) rk so by simp
    then show ?thesis
      using "5.IH"(2)[OF rk refl so refl More _ after_item_ok(2)[OF u2 More]] acc' by simp
  next
    case No_delimiter
    then show ?thesis using "5.prems"(1) rk so by simp
  qed
next
  case (6 F acc s)
  then show ?case by simp
next
  case (7 F n acc s)
  obtain val s1 where so: "scan_once F n s = Some (val, s1)"
    using "7.prems"(1) by (auto split: option.splits)
  have v: "wf_json val" and u1: "unicode_text s1" using "7.IH"(1)[OF so "7.prems"(2)] by auto
  have acc': "wf_list (acc @ [val])" using "7.prems"(3) v by (simp add: wf_list_append)
  show ?case
  proof (cases "after_item 93 s1")
    case (Closed x)
    then have "d = JList (acc @ [val])" "r = x" using "7.prems"(1) so by auto
    then show ?thesis using acc' after_item_ok(1)[OF u1 Closed] by simp
  next
    case (More x)
    then have "parse_array F n (acc @ [val]) x = Some (d, r)" using "7.prems"(1) so by simp
    then show ?thesis
      using "7.IH"(2)[OF so refl More _ after_item_ok(2)[OF u1 More]] acc' by simp
  next
    case No_delimiter
    then show ?thesis using "7.prems"(1) so by simp
  qed
qed

lemma unicode_text_universal_newlines: "unicode_text s \<Longrightarrow> unicode_text (universal_newlines s)"
proof (induction s rule: universal_newlines.induct)
  case 1
  then show ?case by simp
next
  case (2 c cs)
  have ten: "10 < (1114112::nat) \<and> \<not> is_high_surrogate 10 \<and> \<not> is_low_surrogate 10"
    by (simp add: is_high_surrogate_def is_low_surrogate_def)
  show ?case
  proof (cases "c = 13")
    case False
    then show ?thesis using 2 by (simp add: unicode_text_Cons)
  next
    case True
    show ?thesis
    proof (cases cs)
      case Nil
      then show ?thesis using True ten by (simp add: unicode_text_Cons unicode_text_def)
    next
      case (Cons d ds)
      then show ?thesis using True ten 2 by (auto simp: unicode_text_Cons)
    qed
  qed
qed

lemma json_loads_wf:
  assumes "unicode_text t" and "json_loads F t = Inr d"
  shows "wf_json d"
proof -
  obtain r where "scan_once F (Suc (length t)) (skip_ws t) = Some (d, r)"
    using assms(2) unfolding json_loads_def
    by (auto split: if_splits option.splits)
  then show ?thesis using scan_once_wf(1) unicode_text_skip_ws[OF assms(1)] by blast
qed

section \<open>Running an update again\<close>

lemma dict_set_same: "dict_get kvs k = Some v \<Longrightarrow> dict_set kvs k v = kvs"
  by (induction kvs) (auto simp: dict_get_def split: if_splits)

lemma str_ok_keys: "str_ok (py ''version'')" "str_ok (py ''packages'')" "str_ok []"
  by (simp_all add: py_def is_high_surrogate_def)

lemma wf_dict_get: "wf_dict kvs \<Longrightarrow> dict_get kvs k = Some x \<Longrightarrow> wf_json x"
  by (induction kvs) (auto simp: dict_get_def split: if_splits)

lemma wf_json_dict_set:
  "wf_json (JDict kvs) \<Longrightarrow> str_ok k \<Longrightarrow> wf_json x \<Longrightarrow> wf_json (JDict (dict_set kvs k x))"
  by (simp add: dict_set_distinct wf_dict_dict_set)

lemma wf_set_root_package_version:
  assumes "wf_json (JDict kvs)" and "str_ok v"
  shows "wf_json (set_root_package_version (JDict kvs) v)"
proof (cases "\<exists>packages root_package. dict_get kvs (py ''packages'') = Some (JDict packages) \<and>
             dict_get packages [] = Some (JDict root_package)")
  case False
  then show ?thesis using assms(1) set_root_package_version_other[of kvs v] by simp
next
  case True
  then obtain packages root_package where
    p: "dict_get kvs (py ''packages'') = Some (JDict packages)"
    and r: "dict_get packages [] = Some (JDict root_package)" by blast
  have wp: "wf_json (JDict packages)" using assms(1) p by (auto dest: wf_dict_get)
  then have wr: "wf_json (JDict root_package)" using r by (auto dest: wf_dict_get)
  have wv: "wf_json (JStr v)" using assms(2) by simp
  have 1: "wf_json (JDict (dict_set root_package (py ''version'') (JStr v)))"
    using wr str_ok_keys(1) wv by (rule wf_json_dict_set)
  have 2: "wf_json (JDict (dict_set packages []
      (JDict (dict_set root_package (py ''version'') (JStr v)))))"
    using wp str_ok_keys(3) 1 by (rule wf_json_dict_set)
  have "wf_json (JDict (dict_set kvs (py ''packages'') (JDict (dict_set packages []
      (JDict (dict_set root_package (py ''version'') (JStr v)))))))"
    using assms(1) str_ok_keys(2) 2 by (rule wf_json_dict_set)
  then show ?thesis using set_root_package_version_nested[OF p r, of v] by simp
qed

text \<open>Setting the versions in a document that has them set changes nothing.\<close>

lemma set_versions_again:
  assumes "set_root_package_version (JDict (dict_set kvs (py ''version'') (JStr v))) v = JDict kvs'"
  shows "set_root_package_version (JDict (dict_set kvs' (py ''version'') (JStr v))) v = JDict kvs'"
proof -
  let ?k1 = "dict_set kvs (py ''version'') (JStr v)"
  have g1: "dict_get ?k1 (py ''version'') = Some (JStr v)" by (simp add: dict_get_dict_set)
  have "dict_get kvs' (py ''version'') = Some (JStr v)"
    using set_root_package_version_top[of ?k1 v] assms g1 by auto
  then have s1: "dict_set kvs' (py ''version'') (JStr v) = kvs'" by (rule dict_set_same)
  show ?thesis
  proof (cases "\<exists>packages root_package. dict_get ?k1 (py ''packages'') = Some (JDict packages) \<and>
             dict_get packages [] = Some (JDict root_package)")
    case False
    then have "kvs' = ?k1" using set_root_package_version_other[of ?k1 v] assms by simp
    then show ?thesis unfolding s1 using assms by simp
  next
    case True
    then obtain packages root_package where
      p: "dict_get ?k1 (py ''packages'') = Some (JDict packages)"
      and r: "dict_get packages [] = Some (JDict root_package)" by blast
    let ?root' = "dict_set root_package (py ''version'') (JStr v)"
    let ?packages' = "dict_set packages [] (JDict ?root')"
    have k': "kvs' = dict_set ?k1 (py ''packages'') (JDict ?packages')"
      using set_root_package_version_nested[OF p r, of v] assms by simp
    have p': "dict_get kvs' (py ''packages'') = Some (JDict ?packages')"
      unfolding k' by (simp add: dict_get_dict_set)
    have r': "dict_get ?packages' [] = Some (JDict ?root')" by (simp add: dict_get_dict_set)
    have "dict_get ?root' (py ''version'') = Some (JStr v)" by (simp add: dict_get_dict_set)
    then have a: "dict_set ?root' (py ''version'') (JStr v) = ?root'" by (rule dict_set_same)
    have b: "dict_set ?packages' [] (JDict ?root') = ?packages'"
      using r' by (rule dict_set_same)
    have c: "dict_set kvs' (py ''packages'') (JDict ?packages') = kvs'"
      using p' by (rule dict_set_same)
    show ?thesis unfolding s1
      using set_root_package_version_nested[OF p' r', of v] by (simp only: a b c)
  qed
qed

lemma printable_unicode_text:
  "(\<And>c. c \<in> set s \<Longrightarrow> c = 10 \<or> (32 \<le> c \<and> c \<le> 126)) \<Longrightarrow> unicode_text s"
  unfolding unicode_text_def is_high_surrogate_def is_low_surrogate_def by fastforce

lemma unicode_text_dumps: "float_ok F \<Longrightarrow> unicode_text (json_dumps F d @ [10])"
  unfolding json_dumps_def
  by (rule printable_unicode_text) (auto dest: iterencode_chars(1))

lemma update_json_version_again:
  assumes "float_ok F" and "wf_json (JDict kvs)" and "str_ok v"
    and "set_root_package_version (JDict (dict_set kvs (py ''version'') (JStr v))) v = JDict kvs'"
    and "files w1 p = Some (json_dumps F (JDict kvs') @ [10])"
  shows "update_json_version F p v w1 = (Inr (), w1)"
proof -
  have "wf_json (JStr v)" using assms(3) by simp
  then have "wf_json (JDict (dict_set kvs (py ''version'') (JStr v)))"
    using assms(2) str_ok_keys(1) by (intro wf_json_dict_set)
  then have w: "wf_json (JDict kvs')"
    using wf_set_root_package_version[OF _ assms(3)] assms(4) by metis
  have l: "json_loads F (universal_newlines (json_dumps F (JDict kvs') @ [10])) = Inr (JDict kvs')"
    using assms(1) w by (rule json_loads_written)
  have "update_json_version F p v w1 =
      (Inr (), w1\<lparr>files := (files w1)(p \<mapsto> json_dumps F (JDict kvs') @ [10])\<rparr>)"
    using update_json_version_eq[OF assms(5), of F v] l set_versions_again[OF assms(4)]
    by simp
  moreover have "(files w1)(p \<mapsto> json_dumps F (JDict kvs') @ [10]) = files w1"
    using assms(5) by (rule map_upd_triv)
  ultimately show ?thesis by simp
qed

text \<open>
  C10: when \<^verbatim>\<open>update_json_version\<close> has written a file, running it again with the
  same version on what it wrote writes the same text: the second run returns the world
  of the first. The file is a decoded text (no surrogate code points), the version a
  \<open>str_ok\<close> text, and \<^verbatim>\<open>float\<close> and its \<^verbatim>\<open>repr\<close> are as \<open>float_ok\<close> says.
\<close>

theorem update_json_version_idempotent:
  assumes "float_ok F" and "files w p = Some t" and "unicode_text t" and "str_ok v"
    and "update_json_version F p v w = (Inr (), w1)"
  shows "update_json_version F p v w1 = (Inr (), w1)"
proof -
  from assms(5) update_json_version_eq[OF assms(2), of F v]
  obtain kvs where l: "json_loads F (universal_newlines t) = Inr (JDict kvs)"
    and w1: "w1 = w\<lparr>files := (files w)(p \<mapsto> json_dumps F (set_root_package_version
                    (JDict (dict_set kvs (py ''version'') (JStr v))) v) @ [10])\<rparr>"
    by (auto split: sum.splits json.splits)
  have wf: "wf_json (JDict kvs)"
    using json_loads_wf[OF unicode_text_universal_newlines[OF assms(3)] l] .
  obtain kvs' where k': "set_root_package_version
      (JDict (dict_set kvs (py ''version'') (JStr v))) v = JDict kvs'"
    using set_root_package_version_top[of "dict_set kvs (py ''version'') (JStr v)" v] by blast
  have f: "files w1 p = Some (json_dumps F (JDict kvs') @ [10])" unfolding w1 k' by simp
  show ?thesis using assms(1) wf assms(4) k' f by (rule update_json_version_again)
qed

lemma str_ok_123: "str_ok (py ''1.2.3'')"
  by (simp add: py_def is_high_surrogate_def)

theorem update_json_version_idempotent_witness:
  "\<exists>w1.
     update_json_version one_float PACKAGE_LOCK (py ''1.2.3'')
        \<lparr>files = [PACKAGE_LOCK \<mapsto> json_dumps one_float ex_doc @ [10]], stdin = []\<rparr> =
       (Inr (), w1) \<and>
     update_json_version one_float PACKAGE_LOCK (py ''1.2.3'') w1 = (Inr (), w1)"
proof -
  let ?w = "\<lparr>files = [PACKAGE_LOCK \<mapsto> json_dumps one_float ex_doc @ [10]], stdin = []\<rparr>"
  have f: "files ?w PACKAGE_LOCK = Some (json_dumps one_float ex_doc @ [10])" by simp
  have u: "unicode_text (json_dumps one_float ex_doc @ [10])"
    using float_ok_one_float by (rule unicode_text_dumps)
  have l: "json_loads one_float (universal_newlines (json_dumps one_float ex_doc @ [10])) =
      Inr ex_doc"
    using float_ok_one_float wf_ex_doc by (rule json_loads_written)
  obtain w1 where 1: "update_json_version one_float PACKAGE_LOCK (py ''1.2.3'') ?w = (Inr (), w1)"
    using update_json_version_eq[OF f, of one_float "py ''1.2.3''"] l
    by (simp add: ex_doc_def)
  have "update_json_version one_float PACKAGE_LOCK (py ''1.2.3'') w1 = (Inr (), w1)"
    using float_ok_one_float f u str_ok_123 1 by (rule update_json_version_idempotent)
  with 1 show ?thesis by blast
qed

section \<open>What a run of \<^verbatim>\<open>main\<close> leaves of each file\<close>

lemma paths_distinct:
  "PACKAGE_JSON \<noteq> PACKAGE_LOCK" "PACKAGE_JSON \<noteq> TAURI_CONF" "PACKAGE_JSON \<noteq> CARGO_TOML"
  "PACKAGE_JSON \<noteq> RELEASE_WORKFLOW" "PACKAGE_LOCK \<noteq> TAURI_CONF" "PACKAGE_LOCK \<noteq> CARGO_TOML"
  "PACKAGE_LOCK \<noteq> RELEASE_WORKFLOW" "TAURI_CONF \<noteq> CARGO_TOML" "TAURI_CONF \<noteq> RELEASE_WORKFLOW"
  "CARGO_TOML \<noteq> RELEASE_WORKFLOW"
  by (simp_all add: PACKAGE_JSON_def PACKAGE_LOCK_def TAURI_CONF_def CARGO_TOML_def
      RELEASE_WORKFLOW_def)

lemma keepsD: "keeps q m \<Longrightarrow> m w = (r, w') \<Longrightarrow> files w' q = files w q"
  by (auto simp: keeps_def)

lemma keeps_bind: "keeps q m \<Longrightarrow> (\<And>x. keeps q (f x)) \<Longrightarrow> keeps q (io_bind m f)"
  unfolding keeps_def io_bind_def
  by (auto split: prod.splits sum.splits)

lemma keeps_read_text: "keeps q (read_text p)"
  by (auto simp: keeps_def read_text_def split: option.splits)

lemma keeps_pure: "keeps q (io_pure r)" "keeps q (io_raise e)" "keeps q (io_return x)"
  by (auto simp: keeps_def io_pure_def io_raise_def io_return_def)

lemma keeps_write_text: "q \<noteq> p \<Longrightarrow> keeps q (write_text p t)"
  by (auto simp: keeps_def write_text_def)

lemma keeps_update_json_version: "q \<noteq> p \<Longrightarrow> keeps q (update_json_version F p v)"
  unfolding update_json_version_def
  by (intro keeps_bind keeps_read_text keeps_pure keeps_write_text)

lemma keeps_update_tauri_conf: "q \<noteq> p \<Longrightarrow> keeps q (update_tauri_conf F p v)"
  unfolding update_tauri_conf_def
  by (intro keeps_bind keeps_read_text keeps_pure keeps_write_text)

lemma keeps_update_cargo_version: "q \<noteq> p \<Longrightarrow> keeps q (update_cargo_version p v)"
  by (auto simp: keeps_def update_cargo_version_def read_text_def write_text_def
      split: option.splits prod.splits if_splits)

lemma keeps_update_release_body: "q \<noteq> p \<Longrightarrow> keeps q (update_release_body p b)"
  by (auto simp: keeps_def update_release_body_def open_lines_def write_text_def Let_def
      split: option.splits prod.splits if_splits)

lemma keeps_prompt: "keeps q (prompt m)"
  by (auto simp: keeps_def prompt_def input_def Let_def split: list.splits if_splits)

lemma keeps_get_current_version: "keeps q (get_current_version F)"
  unfolding get_current_version_def
  by (intro keeps_bind keeps_read_text keeps_pure)
    (auto split: json.splits option.splits intro: keeps_pure)

text \<open>An update that fails has written nothing.\<close>

lemma update_cargo_version_fails:
  "update_cargo_version p v w = (Inl e, w') \<Longrightarrow> w' = w"
  by (auto simp: update_cargo_version_def read_text_def write_text_def
      split: option.splits prod.splits if_splits)

lemma update_release_body_fails:
  "update_release_body p b w = (Inl e, w') \<Longrightarrow> w' = w"
  by (auto simp: update_release_body_def open_lines_def write_text_def Let_def
      split: option.splits prod.splits if_splits)

lemma update_json_version_fails:
  "update_json_version F p v w = (Inl e, w') \<Longrightarrow> w' = w"
  by (auto simp: update_json_version_def io_bind_def io_pure_def read_text_def write_text_def
      split: option.splits sum.splits prod.splits)

lemma update_tauri_conf_fails:
  "update_tauri_conf F p v w = (Inl e, w') \<Longrightarrow> w' = w"
  by (auto simp: update_tauri_conf_def io_bind_def io_pure_def read_text_def write_text_def
      split: option.splits sum.splits prod.splits)

text \<open>What an update that succeeds has written.\<close>

lemma update_json_version_Inr:
  assumes "update_json_version F p v w = (Inr (), w')"
  shows "\<exists>t kvs kvs'. files w p = Some t \<and>
           json_loads F (universal_newlines t) = Inr (JDict kvs) \<and>
           set_root_package_version (JDict (dict_set kvs (py ''version'') (JStr v))) v =
             JDict kvs' \<and>
           dict_get kvs' (py ''version'') = Some (JStr v) \<and>
           w' = w\<lparr>files := (files w)(p \<mapsto> json_dumps F (JDict kvs') @ [10])\<rparr>"
proof -
  obtain t where t: "files w p = Some t"
    using assms
    by (cases "files w p")
      (auto simp: update_json_version_def io_bind_def read_text_def)
  from assms update_json_version_eq[OF t, of F v]
  obtain kvs where l: "json_loads F (universal_newlines t) = Inr (JDict kvs)"
    and w': "w' = w\<lparr>files := (files w)(p \<mapsto> json_dumps F (set_root_package_version
                    (JDict (dict_set kvs (py ''version'') (JStr v))) v) @ [10])\<rparr>"
    by (auto split: sum.splits json.splits)
  let ?k1 = "dict_set kvs (py ''version'') (JStr v)"
  obtain kvs' where k': "set_root_package_version (JDict ?k1) v = JDict kvs'"
    and g: "dict_get kvs' (py ''version'') = dict_get ?k1 (py ''version'')"
    using set_root_package_version_top[of ?k1 v] by blast
  have "dict_get kvs' (py ''version'') = Some (JStr v)"
    unfolding g by (simp add: dict_get_dict_set)
  then show ?thesis using t l k' w' by auto
qed

lemma update_tauri_conf_Inr:
  assumes "update_tauri_conf F p v w = (Inr (), w')"
  shows "\<exists>t kvs. files w p = Some t \<and>
           json_loads F (universal_newlines t) = Inr (JDict kvs) \<and>
           w' = w\<lparr>files := (files w)(p \<mapsto>
                  json_dumps F (JDict (dict_set kvs (py ''version'') (JStr v))) @ [10])\<rparr>"
proof -
  obtain t where t: "files w p = Some t"
    using assms
    by (cases "files w p")
      (auto simp: update_tauri_conf_def io_bind_def read_text_def)
  from assms update_tauri_conf_eq[OF t, of F v]
  show ?thesis using t by (auto split: sum.splits json.splits)
qed

lemma update_cargo_version_Inr:
  assumes "update_cargo_version p v w = (Inr (), w')"
  shows "\<exists>t. files w p = Some t \<and>
           (\<exists>line \<in> set (splitlines (universal_newlines t)). version_pattern_match line) \<and>
           w' = w\<lparr>files := (files w)(p \<mapsto>
                  join [10] (map (\<lambda>l. if version_pattern_match l then version_line v else l)
                    (splitlines (universal_newlines t))) @ [10])\<rparr>"
  using assms
  by (cases "files w p")
    (auto simp: update_cargo_version_def read_text_def write_text_def cargo_loop_eq
      split: if_splits)

lemma main_after_inputs:
  assumes "get_current_version F w = (Inr current_version, w0)"
    and "prompt (py ''Enter the new version ['' @ current_version @ py ''] (e.g. 1.2.3): '') w0 =
           (Inr version, w1)"
    and "prompt (py ''Enter the release notes/description: '') w1 = (Inr release_body, w2)"
  shows "main F w =
     io_bind (update_json_version F PACKAGE_JSON version) (\<lambda>_.
     io_bind (update_json_version F PACKAGE_LOCK version) (\<lambda>_.
     io_bind (update_tauri_conf F TAURI_CONF version) (\<lambda>_.
     io_bind (update_cargo_version CARGO_TOML version) (\<lambda>_.
     update_release_body RELEASE_WORKFLOW release_body)))) w2"
  using assms by (simp add: main_def io_bind_def)

lemma io_bind_Inr: "m w = (Inr x, w1) \<Longrightarrow> io_bind m f w = f x w1"
  by (simp add: io_bind_def)

lemma io_bind_Inl: "m w = (Inl e, w1) \<Longrightarrow> io_bind m f w = (Inl e, w1)"
  by (simp add: io_bind_def)

text \<open>
  C7: in a run of \<^verbatim>\<open>main\<close> that ends with an exception after the two inputs were read,
  every file whose update had succeeded by then holds, at the end, what that update
  wrote: the JSON files the document with the new version, the build manifest the new
  version line. Nothing puts the old content back.
\<close>

theorem main_failure_keeps_earlier_updates:
  assumes "get_current_version F w = (Inr current_version, w0)"
    and "prompt (py ''Enter the new version ['' @ current_version @ py ''] (e.g. 1.2.3): '') w0 =
           (Inr version, w1)"
    and "prompt (py ''Enter the release notes/description: '') w1 = (Inr release_body, w2)"
    and "main F w = (Inl e, w')"
  shows "(update_json_version F PACKAGE_JSON version w2 = (Inr (), w3) \<longrightarrow>
            files w' PACKAGE_JSON = files w3 PACKAGE_JSON \<and>
            (\<exists>kvs. files w3 PACKAGE_JSON = Some (json_dumps F (JDict kvs) @ [10]) \<and>
                   dict_get kvs (py ''version'') = Some (JStr version))) \<and>
         (update_json_version F PACKAGE_JSON version w2 = (Inr (), w3) \<and>
          update_json_version F PACKAGE_LOCK version w3 = (Inr (), w4) \<longrightarrow>
            files w' PACKAGE_LOCK = files w4 PACKAGE_LOCK \<and>
            (\<exists>kvs. files w4 PACKAGE_LOCK = Some (json_dumps F (JDict kvs) @ [10]) \<and>
                   dict_get kvs (py ''version'') = Some (JStr version))) \<and>
         (update_json_version F PACKAGE_JSON version w2 = (Inr (), w3) \<and>
          update_json_version F PACKAGE_LOCK version w3 = (Inr (), w4) \<and>
          update_tauri_conf F TAURI_CONF version w4 = (Inr (), w5) \<longrightarrow>
            files w' TAURI_CONF = files w5 TAURI_CONF \<and>
            (\<exists>kvs. files w5 TAURI_CONF = Some (json_dumps F (JDict kvs) @ [10]) \<and>
                   dict_get kvs (py ''version'') = Some (JStr version))) \<and>
         (update_json_version F PACKAGE_JSON version w2 = (Inr (), w3) \<and>
          update_json_version F PACKAGE_LOCK version w3 = (Inr (), w4) \<and>
          update_tauri_conf F TAURI_CONF version w4 = (Inr (), w5) \<and>
          update_cargo_version CARGO_TOML version w5 = (Inr (), w6) \<longrightarrow>
            files w' CARGO_TOML = files w6 CARGO_TOML \<and>
            (\<exists>new_lines. files w6 CARGO_TOML = Some (join [10] new_lines @ [10]) \<and>
                   version_line version \<in> set new_lines))"
proof -
  let ?u1 = "update_json_version F PACKAGE_JSON version"
  let ?u2 = "update_json_version F PACKAGE_LOCK version"
  let ?u3 = "update_tauri_conf F TAURI_CONF version"
  let ?u4 = "update_cargo_version CARGO_TOML version"
  let ?u5 = "update_release_body RELEASE_WORKFLOW release_body"
  let ?r4 = "io_bind ?u4 (\<lambda>_. ?u5)"
  let ?r3 = "io_bind ?u3 (\<lambda>_. ?r4)"
  let ?r2 = "io_bind ?u2 (\<lambda>_. ?r3)"
  note pd = paths_distinct paths_distinct[symmetric]
  have m: "main F w = io_bind ?u1 (\<lambda>_. ?r2) w2"
    using assms(1-3) by (rule main_after_inputs)
  have k5: "keeps q ?u5" if "q \<noteq> RELEASE_WORKFLOW" for q
    using that by (rule keeps_update_release_body)
  have k4: "keeps q ?r4" if "q \<noteq> CARGO_TOML" "q \<noteq> RELEASE_WORKFLOW" for q
    using that by (intro keeps_bind keeps_update_cargo_version k5)
  have k3: "keeps q ?r3" if "q \<noteq> TAURI_CONF" "q \<noteq> CARGO_TOML" "q \<noteq> RELEASE_WORKFLOW" for q
    using that by (intro keeps_bind keeps_update_tauri_conf k4)
  have k2: "keeps q ?r2"
    if "q \<noteq> PACKAGE_LOCK" "q \<noteq> TAURI_CONF" "q \<noteq> CARGO_TOML" "q \<noteq> RELEASE_WORKFLOW" for q
    using that by (intro keeps_bind keeps_update_json_version k3)
  show ?thesis
  proof (intro conjI impI)
    assume a: "?u1 w2 = (Inr (), w3)"
    have "?r2 w3 = (Inl e, w')" using m assms(4) a by (simp add: io_bind_Inr)
    then show "files w' PACKAGE_JSON = files w3 PACKAGE_JSON"
      by (intro keepsD[OF k2]) (auto simp: pd)
    show "\<exists>kvs. files w3 PACKAGE_JSON = Some (json_dumps F (JDict kvs) @ [10]) \<and>
                dict_get kvs (py ''version'') = Some (JStr version)"
      using update_json_version_Inr[OF a] by auto
  next
    assume a: "?u1 w2 = (Inr (), w3) \<and> ?u2 w3 = (Inr (), w4)"
    have "?r3 w4 = (Inl e, w')" using m assms(4) a by (simp add: io_bind_Inr)
    then show "files w' PACKAGE_LOCK = files w4 PACKAGE_LOCK"
      by (intro keepsD[OF k3]) (auto simp: pd)
    show "\<exists>kvs. files w4 PACKAGE_LOCK = Some (json_dumps F (JDict kvs) @ [10]) \<and>
                dict_get kvs (py ''version'') = Some (JStr version)"
      using update_json_version_Inr[of F PACKAGE_LOCK version w3 w4] a by auto
  next
    assume a: "?u1 w2 = (Inr (), w3) \<and> ?u2 w3 = (Inr (), w4) \<and> ?u3 w4 = (Inr (), w5)"
    have "?r4 w5 = (Inl e, w')" using m assms(4) a by (simp add: io_bind_Inr)
    then show "files w' TAURI_CONF = files w5 TAURI_CONF"
      by (intro keepsD[OF k4]) (auto simp: pd)
    show "\<exists>kvs. files w5 TAURI_CONF = Some (json_dumps F (JDict kvs) @ [10]) \<and>
                dict_get kvs (py ''version'') = Some (JStr version)"
      using update_tauri_conf_Inr[of F TAURI_CONF version w4 w5] a
      by (auto simp: dict_get_dict_set)
  next
    assume a: "?u1 w2 = (Inr (), w3) \<and> ?u2 w3 = (Inr (), w4) \<and> ?u3 w4 = (Inr (), w5) \<and>
               ?u4 w5 = (Inr (), w6)"
    have "?u5 w6 = (Inl e, w')" using m assms(4) a by (simp add: io_bind_Inr)
    then show "files w' CARGO_TOML = files w6 CARGO_TOML"
      by (intro keepsD[OF k5]) (auto simp: pd)
    from update_cargo_version_Inr[of CARGO_TOML version w5 w6] a
    obtain t where t: "\<exists>line \<in> set (splitlines (universal_newlines t)). version_pattern_match line"
      and w6: "w6 = w5\<lparr>files := (files w5)(CARGO_TOML \<mapsto>
                  join [10] (map (\<lambda>l. if version_pattern_match l then version_line version else l)
                    (splitlines (universal_newlines t))) @ [10])\<rparr>"
      by auto
    let ?new = "map (\<lambda>l. if version_pattern_match l then version_line version else l)
                    (splitlines (universal_newlines t))"
    have "version_line version \<in> set ?new" using t by force
    moreover have "files w6 CARGO_TOML = Some (join [10] ?new @ [10])" unfolding w6 by simp
    ultimately show "\<exists>new_lines. files w6 CARGO_TOML = Some (join [10] new_lines @ [10]) \<and>
                   version_line version \<in> set new_lines"
      by blast
  qed
qed

end
